theory Spec2Isabelle
  imports Main
begin

section \<open>Cash-flow forecast (forecast.py): a shallow embedding\<close>

text \<open>
  The program reads recurring transactions from a CSV file, rolls each one's next date
  forward to today, then walks the calendar one day at a time and posts the transactions
  due on each day to a running balance.

  Conventions of the embedding.
  \<^item> A function that can fail returns \<open>error + 'a\<close>; \<open>Inl\<close> is the failure that ends the
    process. A function built on a \<open>while\<close> loop whose termination depends on its
    arguments returns \<open>(error + 'a) option\<close>, where \<open>None\<close> is "the loop never ends".
  \<^item> \<open>datetime.date.today()\<close> is the parameter \<open>today\<close>: one run reads one calendar day.
  \<^item> Amounts and balances are Python floats. The embedding is polymorphic in the number
    type \<open>'a\<close>: it uses only the operations \<open>+\<close>, unary minus and \<open>abs\<close> of the type
    classes \<open>plus\<close>, \<open>uminus\<close> and \<open>abs\<close>, which assume no law at all, so every
    theorem holds for IEEE doubles with their rounding addition as it does for the integers.
    \<open>float(s)\<close> and \<open>round(x, 2)\<close> are parameters (record \<open>float_ops\<close>).
\<close>

subsection \<open>Failures\<close>

datatype exn = TypeError | ValueError | OverflowError | IndexError

text \<open>
  \<open>Exit message code\<close> is a call of \<open>exit_application\<close>: the message is printed on standard
  output and the process exits with the code. \<open>Uncaught e\<close> is an exception that no
  handler of the program catches: the interpreter writes a traceback to standard error and
  exits with status 1.
\<close>

datatype error = Exit string nat | Uncaught exn

definition exit_application :: "string \<Rightarrow> error" where
  "exit_application message = Exit message 1"

fun stdout_lines :: "error \<Rightarrow> string list" where
  "stdout_lines (Exit message code) = [message]"
| "stdout_lines (Uncaught e) = []"

fun exit_status :: "error \<Rightarrow> nat" where
  "exit_status (Exit message code) = code"
| "exit_status (Uncaught e) = 1"

subsection \<open>Calendar dates (datetime.date)\<close>

text \<open>
  A \<open>datetime.date\<close> holds a year, a month and a day of the proleptic Gregorian calendar,
  with \<open>MINYEAR \<le> year \<le> MAXYEAR\<close>; comparison is the lexicographic one on
  (year, month, day). A \<open>datetime.date\<close> always is a day that exists (\<open>valid_date\<close>);
  the record has other values too, and what the functions below return for them says
  nothing about the program.
\<close>

record date =
  year :: int
  month :: int
  day :: int

definition MINYEAR :: int where
  "MINYEAR = 1"

definition MAXYEAR :: int where
  "MAXYEAR = 9999"

definition isleap :: "int \<Rightarrow> bool" where
  "isleap y = (y mod 4 = 0 \<and> (y mod 100 \<noteq> 0 \<or> y mod 400 = 0))"

definition days_in_month :: "int \<Rightarrow> int \<Rightarrow> int" where
  "days_in_month y m =
     (if m = 2 then (if isleap y then 29 else 28)
      else if m = 4 \<or> m = 6 \<or> m = 9 \<or> m = 11 then 30
      else 31)"

definition valid_date :: "date \<Rightarrow> bool" where
  "valid_date d =
     (MINYEAR \<le> year d \<and> year d \<le> MAXYEAR \<and> 1 \<le> month d \<and> month d \<le> 12 \<and>
      1 \<le> day d \<and> day d \<le> days_in_month (year d) (month d))"

definition date_lt :: "date \<Rightarrow> date \<Rightarrow> bool" where
  "date_lt a b =
     (year a < year b \<or>
      (year a = year b \<and> (month a < month b \<or> (month a = month b \<and> day a < day b))))"

definition date_le :: "date \<Rightarrow> date \<Rightarrow> bool" where
  "date_le a b = (\<not> date_lt b a)"

text \<open>
  \<open>date + timedelta(days=n)\<close> is the date \<open>n\<close> days later (earlier for a negative \<open>n\<close>);
  it raises OverflowError when that day lies outside the years MINYEAR..MAXYEAR.
  The day after and the day before:
\<close>

definition next_day :: "date \<Rightarrow> error + date" where
  "next_day d =
     (if day d < days_in_month (year d) (month d) then Inr (d\<lparr>day := day d + 1\<rparr>)
      else if month d < 12 then Inr \<lparr>year = year d, month = month d + 1, day = 1\<rparr>
      else if year d < MAXYEAR then Inr \<lparr>year = year d + 1, month = 1, day = 1\<rparr>
      else Inl (Uncaught OverflowError))"

definition prev_day :: "date \<Rightarrow> error + date" where
  "prev_day d =
     (if 1 < day d then Inr (d\<lparr>day := day d - 1\<rparr>)
      else if 1 < month d
        then Inr \<lparr>year = year d, month = month d - 1,
                  day = days_in_month (year d) (month d - 1)\<rparr>
      else if MINYEAR < year d then Inr \<lparr>year = year d - 1, month = 12, day = 31\<rparr>
      else Inl (Uncaught OverflowError))"

fun days_later :: "nat \<Rightarrow> date \<Rightarrow> error + date" where
  "days_later 0 d = Inr d"
| "days_later (Suc n) d =
     (case next_day d of Inl e \<Rightarrow> Inl e | Inr d' \<Rightarrow> days_later n d')"

fun days_earlier :: "nat \<Rightarrow> date \<Rightarrow> error + date" where
  "days_earlier 0 d = Inr d"
| "days_earlier (Suc n) d =
     (case prev_day d of Inl e \<Rightarrow> Inl e | Inr d' \<Rightarrow> days_earlier n d')"

definition add_timedelta_days :: "date \<Rightarrow> int \<Rightarrow> error + date" where
  "add_timedelta_days d n =
     (if 0 \<le> n then days_later (nat n) d else days_earlier (nat (- n)) d)"

subsection \<open>dateutil.relativedelta\<close>

text \<open>
  Of a relativedelta the program uses the relative years, months and days. The constructor
  turns weeks into days and more than eleven months into years (\<open>_fix\<close>).
\<close>

record relativedelta =
  rd_years :: int
  rd_months :: int
  rd_days :: int

definition mk_relativedelta :: "int \<Rightarrow> int \<Rightarrow> int \<Rightarrow> int \<Rightarrow> relativedelta" where
  "mk_relativedelta ys ms ws ds =
     (if 11 < \<bar>ms\<bar>
      then \<lparr>rd_years = ys + sgn ms * (\<bar>ms\<bar> div 12), rd_months = sgn ms * (\<bar>ms\<bar> mod 12),
            rd_days = ds + ws * 7\<rparr>
      else \<lparr>rd_years = ys, rd_months = ms, rd_days = ds + ws * 7\<rparr>)"

text \<open>
  \<open>date + relativedelta\<close> (\<open>relativedelta.__radd__\<close>): add the years, add the months and
  carry into the year, clip the day to the length of the month reached, replace the fields
  of the date (ValueError when the year leaves MINYEAR..MAXYEAR), then add the days as a
  timedelta.
\<close>

definition add_relativedelta :: "date \<Rightarrow> relativedelta \<Rightarrow> error + date" where
  "add_relativedelta dt rd =
     (let y0 = year dt + rd_years rd;
          m0 = month dt + rd_months rd;
          y = (if rd_months rd \<noteq> 0
               then (if 12 < m0 then y0 + 1 else if m0 < 1 then y0 - 1 else y0)
               else y0);
          m = (if rd_months rd \<noteq> 0
               then (if 12 < m0 then m0 - 12 else if m0 < 1 then m0 + 12 else m0)
               else month dt);
          dd = min (days_in_month y m) (day dt)
      in if y < MINYEAR \<or> MAXYEAR < y then Inl (Uncaught ValueError)
         else add_timedelta_days \<lparr>year = y, month = m, day = dd\<rparr> (rd_days rd))"

text \<open>
  \<open>date.fromisoformat\<close> for the form YYYY-MM-DD, the one the program's error message asks
  for: ten characters, ASCII digits around two hyphens, and a date that exists. \<open>None\<close> is
  the ValueError.
\<close>

definition digit_of :: "char \<Rightarrow> int option" where
  "digit_of c =
     (let n = (of_char c :: nat) in if 48 \<le> n \<and> n \<le> 57 then Some (int n - 48) else None)"

fun digits_of :: "int \<Rightarrow> string \<Rightarrow> int option" where
  "digits_of acc [] = Some acc"
| "digits_of acc (c # cs) =
     (case digit_of c of None \<Rightarrow> None | Some v \<Rightarrow> digits_of (acc * 10 + v) cs)"

definition fromisoformat :: "string \<Rightarrow> date option" where
  "fromisoformat s =
     (if length s = 10 \<and> s ! 4 = CHR ''-'' \<and> s ! 7 = CHR ''-''
      then (case digits_of 0 (take 4 s) of None \<Rightarrow> None
            | Some y \<Rightarrow>
              (case digits_of 0 (take 2 (drop 5 s)) of None \<Rightarrow> None
               | Some m \<Rightarrow>
                 (case digits_of 0 (drop 8 s) of None \<Rightarrow> None
                  | Some d \<Rightarrow>
                    (let dt = \<lparr>year = y, month = m, day = d\<rparr>
                     in if valid_date dt then Some dt else None))))
      else None)"

subsection \<open>Ledger entries and recurring transactions\<close>

text \<open>
  A value read from the CSV file is a string, or None where a row is shorter than the
  header (\<open>csv.DictReader\<close> fills with None). \<open>py_str\<close> is how an f-string shows it.
\<close>

fun py_str :: "string option \<Rightarrow> string" where
  "py_str None = ''None''"
| "py_str (Some s) = s"

record 'a LedgerEntry =
  e_date :: date
  e_name :: "string option"
  e_amount :: 'a
  e_balance :: 'a

record 'a RecurringTransaction =
  name :: "string option"
  sign :: char
  transaction_type :: string
  amount :: 'a
  frequency :: relativedelta
  next_date :: date

text \<open>\<open>float(value)\<close> (None is its ValueError) and \<open>round(x, 2)\<close>.\<close>

record 'a float_ops =
  py_float :: "string \<Rightarrow> 'a option"
  py_round2 :: "'a \<Rightarrow> 'a"

text \<open>The setter of \<open>transaction_type\<close>: the stored type and the sign.\<close>

definition set_transaction_type :: "string option \<Rightarrow> string option \<Rightarrow> error + string \<times> char" where
  "set_transaction_type nm v =
     (if v \<noteq> Some ''income'' \<and> v \<noteq> Some ''expense''
      then Inl (exit_application
        (''Transaction_type for '' @ py_str nm @ '' must be 'income' or 'expense'.''))
      else if v = Some ''income'' then Inr (''income'', CHR ''+'')
      else Inr (''expense'', CHR ''-''))"

text \<open>
  The setter of \<open>amount\<close>. \<open>float(None)\<close> raises TypeError, which the
  \<open>except ValueError\<close> does not catch.
\<close>

definition set_amount ::
  "('a::{uminus,abs}) float_ops \<Rightarrow> string option \<Rightarrow> string \<Rightarrow> string option \<Rightarrow> error + 'a" where
  "set_amount F nm ttype v =
     (case v of
        None \<Rightarrow> Inl (Uncaught TypeError)
      | Some s \<Rightarrow>
          (case py_float F s of
             None \<Rightarrow> Inl (exit_application
               (''Amount of '' @ [CHR 0x27] @ s @ [CHR 0x27] @ '' for '' @ py_str nm @
                '' is invalid.''))
           | Some x \<Rightarrow>
               (let r = py_round2 F x
                in if ttype = ''expense'' then Inr (- \<bar>r\<bar>) else Inr \<bar>r\<bar>)))"

text \<open>The setter of \<open>frequency\<close>.\<close>

definition valid_freq :: "string list" where
  "valid_freq =
     [''daily'', ''weekly'', ''biweekly'', ''monthly'', ''quarterly'', ''semiyearly'', ''yearly'']"

definition set_frequency :: "string option \<Rightarrow> string option \<Rightarrow> error + relativedelta" where
  "set_frequency nm v =
     (case v of
        None \<Rightarrow> Inl (exit_application (''Invalid frequency for '' @ py_str nm @ ''.''))
      | Some s \<Rightarrow>
          if s \<notin> set valid_freq
          then Inl (exit_application (''Invalid frequency for '' @ py_str nm @ ''.''))
          else if s = ''daily'' then Inr (mk_relativedelta 0 0 0 1)
          else if s = ''weekly'' then Inr (mk_relativedelta 0 0 1 0)
          else if s = ''biweekly'' then Inr (mk_relativedelta 0 0 2 0)
          else if s = ''monthly'' then Inr (mk_relativedelta 0 1 0 0)
          else if s = ''quarterly'' then Inr (mk_relativedelta 0 3 0 0)
          else if s = ''semiyearly'' then Inr (mk_relativedelta 0 6 0 0)
          else Inr (mk_relativedelta 1 0 0 0))"

text \<open>
  The setter of \<open>next_date\<close>. The value is a string (or None) when the constructor calls
  it, and a date when \<open>advance_next_date\<close> does. The loop
  \<open>while today > date: date += self.frequency\<close> is \<open>roll_forward\<close>; an exception of the
  addition ends it, since the loop stands outside the \<open>try\<close>.
\<close>

datatype pyval = PyNone | PyStr string | PyDate date

partial_function (option) roll_forward ::
  "date \<Rightarrow> relativedelta \<Rightarrow> date \<Rightarrow> (error + date) option" where
  "roll_forward today freq d =
     (if date_lt d today
      then (case add_relativedelta d freq of
              Inl e \<Rightarrow> Some (Inl e)
            | Inr d' \<Rightarrow> roll_forward today freq d')
      else Some (Inr d))"

declare roll_forward.simps [code]

definition set_next_date ::
  "date \<Rightarrow> string option \<Rightarrow> relativedelta \<Rightarrow> pyval \<Rightarrow> (error + date) option" where
  "set_next_date today nm freq v =
     (case v of
        PyDate dv \<Rightarrow>
          if date_le today dv then Some (Inr dv) else Some (Inl (Uncaught TypeError))
      | PyNone \<Rightarrow> Some (Inl (Uncaught TypeError))
      | PyStr s \<Rightarrow>
          (case fromisoformat s of
             None \<Rightarrow> Some (Inl (exit_application
               (''next_date for '' @ py_str nm @ '' is in an invalid format. Use YYYY-MM-DD.'')))
           | Some d \<Rightarrow> roll_forward today freq d))"

text \<open>One row of the input, as \<open>csv.DictReader\<close> yields it once the header is right.\<close>

record row =
  row_name :: "string option"
  row_frequency :: "string option"
  row_next_date :: "string option"
  row_amount :: "string option"
  row_transaction_type :: "string option"

fun pyval_of :: "string option \<Rightarrow> pyval" where
  "pyval_of None = PyNone"
| "pyval_of (Some s) = PyStr s"

text \<open>
  \<open>RecurringTransaction.__init__\<close>: the setters run in the order transaction_type, amount,
  frequency, next_date, and the first failure ends the construction.
\<close>

definition RecurringTransaction_init ::
  "('a::{uminus,abs}) float_ops \<Rightarrow> date \<Rightarrow> row \<Rightarrow> (error + 'a RecurringTransaction) option" where
  "RecurringTransaction_init F today r =
     (case set_transaction_type (row_name r) (row_transaction_type r) of
        Inl e \<Rightarrow> Some (Inl e)
      | Inr (tt, sg) \<Rightarrow>
          (case set_amount F (row_name r) tt (row_amount r) of
             Inl e \<Rightarrow> Some (Inl e)
           | Inr a \<Rightarrow>
               (case set_frequency (row_name r) (row_frequency r) of
                  Inl e \<Rightarrow> Some (Inl e)
                | Inr f \<Rightarrow>
                    (case set_next_date today (row_name r) f (pyval_of (row_next_date r)) of
                       None \<Rightarrow> None
                     | Some (Inl e) \<Rightarrow> Some (Inl e)
                     | Some (Inr d) \<Rightarrow>
                         Some (Inr \<lparr>name = row_name r, sign = sg, transaction_type = tt,
                                    amount = a, frequency = f, next_date = d\<rparr>)))))"

text \<open>\<open>advance_next_date\<close>: \<open>self.next_date += self.frequency\<close>, through the setter.\<close>

definition advance_next_date ::
  "date \<Rightarrow> 'a RecurringTransaction \<Rightarrow> (error + 'a RecurringTransaction) option" where
  "advance_next_date today t =
     (case add_relativedelta (next_date t) (frequency t) of
        Inl e \<Rightarrow> Some (Inl e)
      | Inr dv \<Rightarrow>
          (case set_next_date today (name t) (frequency t) (PyDate dv) of
             None \<Rightarrow> None
           | Some (Inl e) \<Rightarrow> Some (Inl e)
           | Some (Inr d) \<Rightarrow> Some (Inr (t\<lparr>next_date := d\<rparr>))))"

subsection \<open>The ledger\<close>

record 'a Ledger =
  days :: int
  starting_balance :: 'a
  current_day :: date
  end_day :: date
  recurring_transactions :: "'a RecurringTransaction list"
  transaction_log :: "'a LedgerEntry list"
  current_balance :: 'a

text \<open>The input file as \<open>csv.DictReader\<close> presents it: the header (None for a file with no
  line at all) and the rows.\<close>

record csv_file =
  fieldnames :: "string list option"
  rows :: "row list"

definition REQUIRED_INPUT_FIELDS :: "string set" where
  "REQUIRED_INPUT_FIELDS =
     {''name'', ''frequency'', ''next_date'', ''amount'', ''transaction_type''}"

text \<open>\<open>set(None)\<close> raises TypeError.\<close>

definition validate_input_fields :: "string list option \<Rightarrow> error + unit" where
  "validate_input_fields fs =
     (case fs of
        None \<Rightarrow> Inl (Uncaught TypeError)
      | Some names \<Rightarrow>
          if \<not> set names = REQUIRED_INPUT_FIELDS
          then Inl (exit_application ''Error: Input file does not contain the correct fields.'')
          else Inr ())"

fun construct_rows ::
  "('a::{uminus,abs}) float_ops \<Rightarrow> date \<Rightarrow> row list \<Rightarrow> (error + 'a RecurringTransaction list) option"
where
  "construct_rows F today [] = Some (Inr [])"
| "construct_rows F today (r # rs) =
     (case RecurringTransaction_init F today r of
        None \<Rightarrow> None
      | Some (Inl e) \<Rightarrow> Some (Inl e)
      | Some (Inr t) \<Rightarrow>
          (case construct_rows F today rs of
             None \<Rightarrow> None
           | Some (Inl e) \<Rightarrow> Some (Inl e)
           | Some (Inr ts) \<Rightarrow> Some (Inr (t # ts))))"

definition import_transactions ::
  "('a::{uminus,abs}) float_ops \<Rightarrow> date \<Rightarrow> csv_file \<Rightarrow> (error + 'a RecurringTransaction list) option"
where
  "import_transactions F today csv =
     (case validate_input_fields (fieldnames csv) of
        Inl e \<Rightarrow> Some (Inl e)
      | Inr u \<Rightarrow> construct_rows F today (rows csv))"

definition record_starting_balance_to_ledger :: "'a Ledger \<Rightarrow> 'a Ledger" where
  "record_starting_balance_to_ledger L =
     L\<lparr>transaction_log := transaction_log L @
         [\<lparr>e_date = current_day L, e_name = Some ''Opening Balance'',
           e_amount = starting_balance L, e_balance = starting_balance L\<rparr>]\<rparr>"

text \<open>\<open>Ledger.__init__\<close>.\<close>

definition Ledger_init ::
  "('a::{uminus,abs}) float_ops \<Rightarrow> date \<Rightarrow> csv_file \<Rightarrow> int \<Rightarrow> 'a \<Rightarrow> (error + 'a Ledger) option" where
  "Ledger_init F today csv ndays sb =
     (case add_relativedelta today (mk_relativedelta 0 0 0 ndays) of
        Inl e \<Rightarrow> Some (Inl e)
      | Inr ed \<Rightarrow>
          (case import_transactions F today csv of
             None \<Rightarrow> None
           | Some (Inl e) \<Rightarrow> Some (Inl e)
           | Some (Inr ts) \<Rightarrow>
               Some (Inr (record_starting_balance_to_ledger
                 \<lparr>days = ndays, starting_balance = sb, current_day = today, end_day = ed,
                  recurring_transactions = ts, transaction_log = [], current_balance = sb\<rparr>))))"

text \<open>
  \<open>is_due\<close> reads the current day of the ledger the transaction belongs to.
  \<open>get_transactions_for_day\<close> returns references to the due transactions; a reference is
  the index of the transaction in \<open>recurring_transactions\<close>.
\<close>

definition is_due :: "'a Ledger \<Rightarrow> 'a RecurringTransaction \<Rightarrow> bool" where
  "is_due L t = (next_date t = current_day L)"

definition get_transactions_for_day :: "'a Ledger \<Rightarrow> nat list" where
  "get_transactions_for_day L =
     filter (\<lambda>i. is_due L (recurring_transactions L ! i))
       [0 ..< length (recurring_transactions L)]"

definition record_transaction ::
  "date \<Rightarrow> ('a::plus) Ledger \<Rightarrow> nat \<Rightarrow> (error + 'a Ledger) option" where
  "record_transaction today L i =
     (let t = recurring_transactions L ! i;
          bal = current_balance L + amount t;
          entry = \<lparr>e_date = current_day L, e_name = name t, e_amount = amount t,
                   e_balance = bal\<rparr>;
          L1 = L\<lparr>current_balance := bal, transaction_log := transaction_log L @ [entry]\<rparr>
      in case advance_next_date today t of
           None \<Rightarrow> None
         | Some (Inl e) \<Rightarrow> Some (Inl e)
         | Some (Inr t') \<Rightarrow>
             Some (Inr (L1\<lparr>recurring_transactions := (recurring_transactions L1)[i := t']\<rparr>)))"

fun record_each :: "date \<Rightarrow> ('a::plus) Ledger \<Rightarrow> nat list \<Rightarrow> (error + 'a Ledger) option" where
  "record_each today L [] = Some (Inr L)"
| "record_each today L (i # js) =
     (case record_transaction today L i of
        None \<Rightarrow> None
      | Some (Inl e) \<Rightarrow> Some (Inl e)
      | Some (Inr L') \<Rightarrow> record_each today L' js)"

definition date_advance :: "'a Ledger \<Rightarrow> error + 'a Ledger" where
  "date_advance L =
     (case add_relativedelta (current_day L) (mk_relativedelta 0 0 0 1) of
        Inl e \<Rightarrow> Inl e
      | Inr d \<Rightarrow> Inr (L\<lparr>current_day := d\<rparr>))"

definition is_active :: "'a Ledger \<Rightarrow> bool" where
  "is_active L = date_le (current_day L) (end_day L)"

text \<open>The body of the loop of \<open>run_loop\<close>, and the loop.\<close>

definition loop_body :: "date \<Rightarrow> ('a::plus) Ledger \<Rightarrow> (error + 'a Ledger) option" where
  "loop_body today L =
     (case record_each today L (get_transactions_for_day L) of
        None \<Rightarrow> None
      | Some (Inl e) \<Rightarrow> Some (Inl e)
      | Some (Inr L1) \<Rightarrow> Some (date_advance L1))"

partial_function (option) run_loop ::
  "date \<Rightarrow> ('a::plus) Ledger \<Rightarrow> (error + 'a Ledger) option" where
  "run_loop today L =
     (if is_active L
      then (case loop_body today L of
              None \<Rightarrow> None
            | Some (Inl e) \<Rightarrow> Some (Inl e)
            | Some (Inr L') \<Rightarrow> run_loop today L')
      else Some (Inr L))"

declare run_loop.simps [code]

text \<open>
  \<open>export_ledger\<close>. What the file system does to \<open>open\<close> and the writes is the parameter
  \<open>io\<close>. The header is read from the first entry before the \<open>try\<close> begins.
\<close>

datatype io_result = Written | NoSuchFile | Failed string

definition to_dict_keys :: "string list" where
  "to_dict_keys = [''date'', ''name'', ''amount'', ''balance'']"

definition export_ledger ::
  "'a Ledger \<Rightarrow> io_result \<Rightarrow> error + string list \<times> 'a LedgerEntry list" where
  "export_ledger L io =
     (case transaction_log L of
        [] \<Rightarrow> Inl (Uncaught IndexError)
      | e # es \<Rightarrow>
          (case io of
             Written \<Rightarrow> Inr (to_dict_keys, e # es)
           | NoSuchFile \<Rightarrow> Inl (exit_application ''Unable to write to the export location'')
           | Failed msg \<Rightarrow> Inl (exit_application (''An unexpected error occurred: '' @ msg))))"

text \<open>
  \<open>main\<close> up to and including \<open>ledger.run_loop()\<close>: the two checks of the arguments, the
  construction of the ledger, the simulation. \<open>isfile\<close> is \<open>os.path.isfile(args.input)\<close>.
\<close>

definition main_run ::
  "('a::{plus,uminus,abs}) float_ops \<Rightarrow> date \<Rightarrow> bool \<Rightarrow> string \<Rightarrow> csv_file \<Rightarrow> int \<Rightarrow> 'a \<Rightarrow>
   (error + 'a Ledger) option" where
  "main_run F today isfile path csv ndays sb =
     (if \<not> isfile
      then Some (Inl (exit_application
        (''Error: Input file '' @ [CHR 0x27] @ path @ [CHR 0x27] @ '' not found.'')))
      else if \<not> 0 < ndays
      then Some (Inl (exit_application ''Error: Forecast days must be greater than 0.''))
      else (case Ledger_init F today csv ndays sb of
              None \<Rightarrow> None
            | Some (Inl e) \<Rightarrow> Some (Inl e)
            | Some (Inr L) \<Rightarrow> run_loop today L))"

subsection \<open>Notions of the specification\<close>

text \<open>
  The specification's words for the recurrence steps: \<open>k\<close> calendar months later is the same
  day of the month \<open>k\<close> months on, clipped to the length of that month (so that January 31
  plus one month is the last day of February); a year is twelve months.
\<close>

definition months_later :: "int \<Rightarrow> date \<Rightarrow> error + date" where
  "months_later k d =
     (let t = year d * 12 + (month d - 1) + k;
          y = t div 12;
          m = t mod 12 + 1
      in if MAXYEAR < y then Inl (Uncaught ValueError)
         else Inr \<lparr>year = y, month = m, day = min (days_in_month y m) (day d)\<rparr>)"

definition spec_step :: "string \<Rightarrow> date \<Rightarrow> error + date" where
  "spec_step s d =
     (if s = ''daily'' then days_later 1 d
      else if s = ''weekly'' then days_later 7 d
      else if s = ''biweekly'' then days_later 14 d
      else if s = ''monthly'' then months_later 1 d
      else if s = ''quarterly'' then months_later 3 d
      else if s = ''semiyearly'' then months_later 6 d
      else months_later 12 d)"

text \<open>
  "Fails fatally by printing a single diagnostic line to standard output and exiting with
  status 1", as a property of a result.
\<close>

definition fails_with_diagnostic :: "error + 'b \<Rightarrow> bool" where
  "fails_with_diagnostic r =
     (case r of Inl e \<Rightarrow> length (stdout_lines e) = 1 \<and> exit_status e = 1 | Inr v \<Rightarrow> False)"

text \<open>The seven recurrence steps the frequency setter can store.\<close>

definition is_step :: "relativedelta \<Rightarrow> bool" where
  "is_step f =
     (f = \<lparr>rd_years = 0, rd_months = 0, rd_days = 1\<rparr> \<or>
      f = \<lparr>rd_years = 0, rd_months = 0, rd_days = 7\<rparr> \<or>
      f = \<lparr>rd_years = 0, rd_months = 0, rd_days = 14\<rparr> \<or>
      f = \<lparr>rd_years = 0, rd_months = 1, rd_days = 0\<rparr> \<or>
      f = \<lparr>rd_years = 0, rd_months = 3, rd_days = 0\<rparr> \<or>
      f = \<lparr>rd_years = 0, rd_months = 6, rd_days = 0\<rparr> \<or>
      f = \<lparr>rd_years = 1, rd_months = 0, rd_days = 0\<rparr>)"

text \<open>A date from which the next thirty-one minus \<open>j\<close> days all exist.\<close>

definition early :: "int \<Rightarrow> date \<Rightarrow> bool" where
  "early j d = (valid_date d \<and> (year d < MAXYEAR \<or> (month d = 1 \<and> day d \<le> j)))"

text \<open>
  The entries that posting the transactions \<open>ts\<close> in this order on day \<open>cur\<close> appends
  to a ledger whose balance is \<open>bal\<close>: each balance is the one before plus the amount.
\<close>

fun post_entries :: "date \<Rightarrow> ('a::plus) \<Rightarrow> 'a RecurringTransaction list \<Rightarrow> 'a LedgerEntry list" where
  "post_entries cur bal [] = []"
| "post_entries cur bal (t # ts) =
     \<lparr>e_date = cur, e_name = name t, e_amount = amount t, e_balance = bal + amount t\<rparr>
       # post_entries cur (bal + amount t) ts"

text \<open>\<open>n\<close> recurrence steps, one after the other, from the date \<open>d\<close>.\<close>

fun steps_forward :: "nat \<Rightarrow> relativedelta \<Rightarrow> date \<Rightarrow> error + date" where
  "steps_forward 0 f d = Inr d"
| "steps_forward (Suc n) f d =
     (case add_relativedelta d f of Inl e \<Rightarrow> Inl e | Inr d' \<Rightarrow> steps_forward n f d')"

text \<open>A number that grows with the date, for valid dates: the measure of the loops.\<close>

definition ord32 :: "date \<Rightarrow> int" where
  "ord32 d = 384 * year d + 32 * month d + day d"

text \<open>\<open>n\<close> iterations of the body of the loop of \<open>run_loop\<close>, one after the other.\<close>

fun iterations :: "nat \<Rightarrow> date \<Rightarrow> ('a::plus) Ledger \<Rightarrow> (error + 'a Ledger) option" where
  "iterations 0 today L = Some (Inr L)"
| "iterations (Suc n) today L =
     (case loop_body today L of
        None \<Rightarrow> None
      | Some (Inl e) \<Rightarrow> Some (Inl e)
      | Some (Inr L') \<Rightarrow> iterations n today L')"

text \<open>
  What holds of the transactions of a ledger at the start of every iteration: each
  frequency is one of the seven steps, each next date is a date of the calendar and is not
  before the current day; the current day is a date of the calendar, not before today.
\<close>

definition transaction_ok :: "date \<Rightarrow> 'a RecurringTransaction \<Rightarrow> bool" where
  "transaction_ok cur t =
     (is_step (frequency t) \<and> valid_date (next_date t) \<and> date_le cur (next_date t))"

definition ledger_ok :: "date \<Rightarrow> 'a Ledger \<Rightarrow> bool" where
  "ledger_ok today L =
     (valid_date (current_day L) \<and> date_le today (current_day L) \<and>
      (\<forall>t \<in> set (recurring_transactions L). transaction_ok (current_day L) t))"

text \<open>
  An instance for the examples: amounts in whole units of currency, written as digits.
\<close>

definition whole_units :: "int float_ops" where
  "whole_units = \<lparr>py_float = digits_of 0, py_round2 = id\<rparr>"

definition input_header :: "string list" where
  "input_header = [''name'', ''frequency'', ''next_date'', ''amount'', ''transaction_type'']"

text \<open>An input of one weekly expense, due on 5 November 2026.\<close>

definition rent_csv :: csv_file where
  "rent_csv = \<lparr>fieldnames = Some input_header,
     rows = [\<lparr>row_name = Some ''Rent'', row_frequency = Some ''weekly'',
              row_next_date = Some ''2026-11-05'', row_amount = Some ''50'',
              row_transaction_type = Some ''expense''\<rparr>]\<rparr>"

text \<open>
  Step consistency of a ledger: the log is not empty, its first entry has the starting
  balance as amount and as balance, every later entry's balance is the balance of the entry
  before plus its own amount, and the running balance is the balance of the last entry.
\<close>

definition step_consistent :: "('a::plus) Ledger \<Rightarrow> bool" where
  "step_consistent L =
     (transaction_log L \<noteq> [] \<and>
      e_amount (hd (transaction_log L)) = starting_balance L \<and>
      e_balance (hd (transaction_log L)) = starting_balance L \<and>
      (\<forall>k \<in> {1 ..< length (transaction_log L)}.
         e_balance (transaction_log L ! k)
           = e_balance (transaction_log L ! (k - 1)) + e_amount (transaction_log L ! k)) \<and>
      current_balance L = e_balance (last (transaction_log L)))"

text \<open>
  The balance the first claim of the specification gives entry \<open>k\<close> (counted from 1): the
  starting balance plus the amounts of the entries 1 to \<open>k\<close>, the opening entry included.
\<close>

definition start_plus_amounts :: "('a::plus) \<Rightarrow> 'a LedgerEntry list \<Rightarrow> nat \<Rightarrow> 'a" where
  "start_plus_amounts sb log k = foldl (+) sb (map e_amount (take k log))"

text \<open>The starting balance plus the amounts of the entries 2 to \<open>k\<close>, added in that order.\<close>

definition start_plus_later_amounts :: "('a::plus) \<Rightarrow> 'a LedgerEntry list \<Rightarrow> nat \<Rightarrow> 'a" where
  "start_plus_later_amounts sb log k = foldl (+) sb (map e_amount (take (k - 1) (tl log)))"

text \<open>The synthetic first entry of a ledger.\<close>

definition opening_entry :: "date \<Rightarrow> 'a \<Rightarrow> 'a LedgerEntry" where
  "opening_entry today sb =
     \<lparr>e_date = today, e_name = Some ''Opening Balance'', e_amount = sb, e_balance = sb\<rparr>"

text \<open>An input of two transactions, A before B, both due on 3 November 2026.\<close>

definition two_due_csv :: csv_file where
  "two_due_csv = \<lparr>fieldnames = Some input_header,
     rows = [\<lparr>row_name = Some ''A'', row_frequency = Some ''weekly'',
              row_next_date = Some ''2026-11-03'', row_amount = Some ''50'',
              row_transaction_type = Some ''expense''\<rparr>,
             \<lparr>row_name = Some ''B'', row_frequency = Some ''monthly'',
              row_next_date = Some ''2026-11-03'', row_amount = Some ''70'',
              row_transaction_type = Some ''income''\<rparr>]\<rparr>"

text \<open>The ledger the example run of two days with the weekly rent ends with.\<close>

definition rent_ledger :: "int Ledger" where
  "rent_ledger =
     \<lparr>days = 2, starting_balance = 1000,
      current_day = \<lparr>year = 2026, month = 11, day = 6\<rparr>,
      end_day = \<lparr>year = 2026, month = 11, day = 5\<rparr>,
      recurring_transactions =
        [\<lparr>name = Some ''Rent'', sign = CHR ''-'', transaction_type = ''expense'',
          amount = - 50, frequency = \<lparr>rd_years = 0, rd_months = 0, rd_days = 7\<rparr>,
          next_date = \<lparr>year = 2026, month = 11, day = 12\<rparr>\<rparr>],
      transaction_log =
        [\<lparr>e_date = \<lparr>year = 2026, month = 11, day = 3\<rparr>,
          e_name = Some ''Opening Balance'', e_amount = 1000, e_balance = 1000\<rparr>,
         \<lparr>e_date = \<lparr>year = 2026, month = 11, day = 5\<rparr>,
          e_name = Some ''Rent'', e_amount = - 50, e_balance = 950\<rparr>],
      current_balance = 950\<rparr>"

section \<open>Properties\<close>

subsection \<open>The frequency setter and the recurrence steps\<close>

lemma set_frequency_values:
  "set_frequency nm (Some ''daily'') = Inr \<lparr>rd_years = 0, rd_months = 0, rd_days = 1\<rparr>"
  "set_frequency nm (Some ''weekly'') = Inr \<lparr>rd_years = 0, rd_months = 0, rd_days = 7\<rparr>"
  "set_frequency nm (Some ''biweekly'') = Inr \<lparr>rd_years = 0, rd_months = 0, rd_days = 14\<rparr>"
  "set_frequency nm (Some ''monthly'') = Inr \<lparr>rd_years = 0, rd_months = 1, rd_days = 0\<rparr>"
  "set_frequency nm (Some ''quarterly'') = Inr \<lparr>rd_years = 0, rd_months = 3, rd_days = 0\<rparr>"
  "set_frequency nm (Some ''semiyearly'') = Inr \<lparr>rd_years = 0, rd_months = 6, rd_days = 0\<rparr>"
  "set_frequency nm (Some ''yearly'') = Inr \<lparr>rd_years = 1, rd_months = 0, rd_days = 0\<rparr>"
  by (simp_all add: set_frequency_def valid_freq_def mk_relativedelta_def)

lemma set_frequency_invalid:
  assumes "v \<notin> Some ` set valid_freq"
  shows "set_frequency nm v = Inl (Exit (''Invalid frequency for '' @ py_str nm @ ''.'') 1)"
proof (cases v)
  case None
  then show ?thesis by (simp add: set_frequency_def exit_application_def)
next
  case (Some s)
  with assms have "s \<notin> set valid_freq" by blast
  with Some show ?thesis by (simp add: set_frequency_def exit_application_def)
qed

lemma add_days_step:
  "valid_date d \<Longrightarrow>
   add_relativedelta d \<lparr>rd_years = 0, rd_months = 0, rd_days = int n\<rparr> = days_later n d"
  by (cases d)
    (simp add: add_relativedelta_def add_timedelta_days_def valid_date_def Let_def MINYEAR_def)

lemma div_mod_12:
  fixes q r :: int
  assumes "0 \<le> r" "r < 12"
  shows "(q * 12 + r) div 12 = q" "(q * 12 + r) mod 12 = r"
  using assms by simp_all

lemma add_months_step:
  assumes "valid_date d" "1 \<le> k" "k \<le> 11"
  shows "add_relativedelta d \<lparr>rd_years = 0, rd_months = k, rd_days = 0\<rparr> = months_later k d"
proof -
  let ?t = "year d * 12 + (month d - 1) + k"
  have m: "1 \<le> month d" "month d \<le> 12" and y: "1 \<le> year d"
    using assms(1) by (simp_all add: valid_date_def MINYEAR_def)
  show ?thesis
  proof (cases "12 < month d + k")
    case True
    have t: "?t = (year d + 1) * 12 + (month d + k - 13)" by simp
    have "?t div 12 = year d + 1" "?t mod 12 = month d + k - 13"
      unfolding t using True m assms(2,3) by (simp_all only: div_mod_12)
    then show ?thesis
      using True y assms(2)
      by (simp add: add_relativedelta_def months_later_def add_timedelta_days_def Let_def
          MINYEAR_def)
  next
    case False
    have t: "?t = year d * 12 + (month d + k - 1)" by simp
    have "?t div 12 = year d" "?t mod 12 = month d + k - 1"
      unfolding t using False m assms(2,3) by (simp_all only: div_mod_12)
    then show ?thesis
      using False y assms(2) m
      by (simp add: add_relativedelta_def months_later_def add_timedelta_days_def Let_def
          MINYEAR_def)
  qed
qed

lemma add_year_step:
  assumes "valid_date d"
  shows "add_relativedelta d \<lparr>rd_years = 1, rd_months = 0, rd_days = 0\<rparr> = months_later 12 d"
proof -
  let ?t = "year d * 12 + (month d - 1) + 12"
  have m: "1 \<le> month d" "month d \<le> 12" and y: "1 \<le> year d"
    using assms(1) by (simp_all add: valid_date_def MINYEAR_def)
  have t: "?t = (year d + 1) * 12 + (month d - 1)" by simp
  have "?t div 12 = year d + 1" "?t mod 12 = month d - 1"
    unfolding t using m by (simp_all only: div_mod_12)
  then show ?thesis
    using y
    by (simp add: add_relativedelta_def months_later_def add_timedelta_days_def Let_def
        MINYEAR_def)
qed

lemma valid_freq_cases:
  "s \<in> set valid_freq \<Longrightarrow>
   s = ''daily'' \<or> s = ''weekly'' \<or> s = ''biweekly'' \<or> s = ''monthly'' \<or> s = ''quarterly'' \<or>
   s = ''semiyearly'' \<or> s = ''yearly''"
  by (simp add: valid_freq_def)

lemma set_frequency_refines_spec_step:
  assumes "valid_date d" "s \<in> set valid_freq"
  shows "\<exists>f. set_frequency nm (Some s) = Inr f \<and> add_relativedelta d f = spec_step s d"
proof -
  have days: "\<And>n. add_relativedelta d \<lparr>rd_years = 0, rd_months = 0, rd_days = int n\<rparr>
      = days_later n d"
    using assms(1) by (rule add_days_step)
  from valid_freq_cases [OF assms(2)] show ?thesis
  proof (elim disjE)
    assume "s = ''daily''"
    then show ?thesis
      using days [of 1] by (simp add: set_frequency_values spec_step_def)
  next
    assume "s = ''weekly''"
    then show ?thesis
      using days [of 7] by (simp add: set_frequency_values spec_step_def)
  next
    assume "s = ''biweekly''"
    then show ?thesis
      using days [of 14] by (simp add: set_frequency_values spec_step_def)
  next
    assume "s = ''monthly''"
    then show ?thesis
      using add_months_step [OF assms(1), of 1] by (simp add: set_frequency_values spec_step_def)
  next
    assume "s = ''quarterly''"
    then show ?thesis
      using add_months_step [OF assms(1), of 3] by (simp add: set_frequency_values spec_step_def)
  next
    assume "s = ''semiyearly''"
    then show ?thesis
      using add_months_step [OF assms(1), of 6] by (simp add: set_frequency_values spec_step_def)
  next
    assume "s = ''yearly''"
    then show ?thesis
      using add_year_step [OF assms(1)] by (simp add: set_frequency_values spec_step_def)
  qed
qed

text \<open>
  Claim C7. The frequency setter resolves each of the seven categories to its fixed step:
  for a valid date, adding the stored relativedelta is one, seven or fourteen days later
  for daily, weekly and biweekly, and one, three, six or twelve calendar months later for
  monthly, quarterly, semiyearly and yearly, the day clipped to the month reached
  (January 31 plus one month is February 28, or 29 in a leap year). Any other category,
  a missing one included, is the fatal error \<open>Invalid frequency for <name>.\<close> with exit
  status 1.
\<close>

theorem frequency_setter_steps:
  assumes "valid_date d"
  shows "(s \<in> set valid_freq \<longrightarrow>
            (\<exists>f. set_frequency nm (Some s) = Inr f \<and> add_relativedelta d f = spec_step s d)) \<and>
         (v \<notin> Some ` set valid_freq \<longrightarrow>
            set_frequency nm v = Inl (Exit (''Invalid frequency for '' @ py_str nm @ ''.'') 1)) \<and>
         set_frequency nm (Some ''daily'') = Inr \<lparr>rd_years = 0, rd_months = 0, rd_days = 1\<rparr> \<and>
         set_frequency nm (Some ''weekly'') = Inr \<lparr>rd_years = 0, rd_months = 0, rd_days = 7\<rparr> \<and>
         set_frequency nm (Some ''biweekly'') = Inr \<lparr>rd_years = 0, rd_months = 0, rd_days = 14\<rparr> \<and>
         set_frequency nm (Some ''monthly'') = Inr \<lparr>rd_years = 0, rd_months = 1, rd_days = 0\<rparr> \<and>
         set_frequency nm (Some ''quarterly'') = Inr \<lparr>rd_years = 0, rd_months = 3, rd_days = 0\<rparr> \<and>
         set_frequency nm (Some ''semiyearly'') = Inr \<lparr>rd_years = 0, rd_months = 6, rd_days = 0\<rparr> \<and>
         set_frequency nm (Some ''yearly'') = Inr \<lparr>rd_years = 1, rd_months = 0, rd_days = 0\<rparr> \<and>
         add_relativedelta \<lparr>year = 2023, month = 1, day = 31\<rparr>
             \<lparr>rd_years = 0, rd_months = 1, rd_days = 0\<rparr>
           = Inr \<lparr>year = 2023, month = 2, day = 28\<rparr> \<and>
         add_relativedelta \<lparr>year = 2024, month = 1, day = 31\<rparr>
             \<lparr>rd_years = 0, rd_months = 1, rd_days = 0\<rparr>
           = Inr \<lparr>year = 2024, month = 2, day = 29\<rparr>"
proof -
  have a: "s \<in> set valid_freq \<longrightarrow>
      (\<exists>f. set_frequency nm (Some s) = Inr f \<and> add_relativedelta d f = spec_step s d)"
    using set_frequency_refines_spec_step [OF assms] by blast
  have b: "v \<notin> Some ` set valid_freq \<longrightarrow>
      set_frequency nm v = Inl (Exit (''Invalid frequency for '' @ py_str nm @ ''.'') 1)"
    using set_frequency_invalid by blast
  have c: "add_relativedelta \<lparr>year = 2023, month = 1, day = 31\<rparr>
             \<lparr>rd_years = 0, rd_months = 1, rd_days = 0\<rparr>
           = Inr \<lparr>year = 2023, month = 2, day = 28\<rparr>"
    by (simp add: add_relativedelta_def days_in_month_def isleap_def MINYEAR_def MAXYEAR_def
        add_timedelta_days_def)
  have d: "add_relativedelta \<lparr>year = 2024, month = 1, day = 31\<rparr>
             \<lparr>rd_years = 0, rd_months = 1, rd_days = 0\<rparr>
           = Inr \<lparr>year = 2024, month = 2, day = 29\<rparr>"
    by (simp add: add_relativedelta_def days_in_month_def isleap_def MINYEAR_def MAXYEAR_def
        add_timedelta_days_def)
  show ?thesis
    using a b c d by (simp only: set_frequency_values simp_thms)
qed

text \<open>
  At 30 November 2026: the quarterly step of a transaction named Rent leads to the last
  day of February 2027, and the category \<open>fortnightly\<close> is refused.
\<close>

theorem frequency_setter_steps_witness:
  "valid_date \<lparr>year = 2026, month = 11, day = 30\<rparr> \<and>
   ''quarterly'' \<in> set valid_freq \<and>
   set_frequency (Some ''Rent'') (Some ''quarterly'')
     = Inr \<lparr>rd_years = 0, rd_months = 3, rd_days = 0\<rparr> \<and>
   add_relativedelta \<lparr>year = 2026, month = 11, day = 30\<rparr>
       \<lparr>rd_years = 0, rd_months = 3, rd_days = 0\<rparr>
     = spec_step ''quarterly'' \<lparr>year = 2026, month = 11, day = 30\<rparr> \<and>
   spec_step ''quarterly'' \<lparr>year = 2026, month = 11, day = 30\<rparr>
     = Inr \<lparr>year = 2027, month = 2, day = 28\<rparr> \<and>
   Some ''fortnightly'' \<notin> Some ` set valid_freq \<and>
   set_frequency (Some ''Rent'') (Some ''fortnightly'')
     = Inl (Exit ''Invalid frequency for Rent.'' 1)"
proof -
  have v: "valid_date \<lparr>year = 2026, month = 11, day = 30\<rparr>"
    by (simp add: valid_date_def days_in_month_def MINYEAR_def MAXYEAR_def)
  have q: "''quarterly'' \<in> set valid_freq"
    by (simp add: valid_freq_def)
  have n: "Some ''fortnightly'' \<notin> Some ` set valid_freq"
    by (simp add: valid_freq_def)
  have sp: "spec_step ''quarterly'' \<lparr>year = 2026, month = 11, day = 30\<rparr>
     = Inr \<lparr>year = 2027, month = 2, day = 28\<rparr>"
    by (simp add: spec_step_def months_later_def days_in_month_def isleap_def MAXYEAR_def)
  from frequency_setter_steps [OF v, of "''quarterly''" "Some ''Rent''" "Some ''fortnightly''"]
  show ?thesis
    using v q n sp by auto
qed

subsection \<open>The calendar\<close>

lemma days_in_month_bounds: "28 \<le> days_in_month y m" "days_in_month y m \<le> 31"
  by (simp_all add: days_in_month_def)

lemma date_lt_irrefl: "\<not> date_lt a a"
  by (simp add: date_lt_def)

lemma date_lt_trans: "date_lt a b \<Longrightarrow> date_lt b c \<Longrightarrow> date_lt a c"
  unfolding date_lt_def by linarith

lemma date_lt_asym: "date_lt a b \<Longrightarrow> \<not> date_lt b a"
  unfolding date_lt_def by linarith

lemma date_le_refl: "date_le a a"
  by (simp add: date_le_def date_lt_irrefl)

lemma date_lt_imp_le: "date_lt a b \<Longrightarrow> date_le a b"
  by (simp add: date_le_def date_lt_asym)

lemma date_le_lt_trans: "date_le a b \<Longrightarrow> date_lt b c \<Longrightarrow> date_lt a c"
  unfolding date_le_def date_lt_def by linarith

lemma date_le_trans: "date_le a b \<Longrightarrow> date_le b c \<Longrightarrow> date_le a c"
  unfolding date_le_def date_lt_def by linarith

lemma date_le_neq_lt:
  fixes a b :: date
  shows "date_le a b \<Longrightarrow> a \<noteq> b \<Longrightarrow> date_lt a b"
  unfolding date_le_def date_lt_def by (cases a, cases b) auto

lemma next_day_cases:
  assumes "next_day d = Inr d'"
  obtains (same_month) "day d < days_in_month (year d) (month d)"
      "d' = \<lparr>year = year d, month = month d, day = day d + 1\<rparr>"
    | (next_month) "\<not> day d < days_in_month (year d) (month d)" "month d < 12"
      "d' = \<lparr>year = year d, month = month d + 1, day = 1\<rparr>"
    | (next_year) "\<not> day d < days_in_month (year d) (month d)" "\<not> month d < 12"
      "year d < MAXYEAR" "d' = \<lparr>year = year d + 1, month = 1, day = 1\<rparr>"
proof (cases "day d < days_in_month (year d) (month d)")
  case True
  with assms have "d' = d\<lparr>day := day d + 1\<rparr>" by (simp add: next_day_def)
  then have "d' = \<lparr>year = year d, month = month d, day = day d + 1\<rparr>" by (cases d) simp
  with True show ?thesis by (rule same_month)
next
  case False
  show ?thesis
  proof (cases "month d < 12")
    case True
    with False assms have "d' = \<lparr>year = year d, month = month d + 1, day = 1\<rparr>"
      by (simp add: next_day_def)
    with False True show ?thesis by (rule next_month)
  next
    case m: False
    show ?thesis
    proof (cases "year d < MAXYEAR")
      case True
      with False m assms have "d' = \<lparr>year = year d + 1, month = 1, day = 1\<rparr>"
        by (simp add: next_day_def)
      with False m True show ?thesis by (rule next_year)
    next
      case False
      with \<open>\<not> day d < days_in_month (year d) (month d)\<close> m assms show ?thesis
        by (simp add: next_day_def)
    qed
  qed
qed

lemma next_day_valid:
  assumes "valid_date d" "next_day d = Inr d'"
  shows "valid_date d'" "date_lt d d'"
proof -
  have v: "MINYEAR \<le> year d" "year d \<le> MAXYEAR" "1 \<le> month d" "month d \<le> 12" "1 \<le> day d"
    using assms(1) by (simp_all add: valid_date_def)
  have b: "1 \<le> days_in_month (year d) (month d + 1)"
    using days_in_month_bounds(1) [of "year d" "month d + 1"] by linarith
  have c: "1 \<le> days_in_month (year d + 1) 1"
    by (simp add: days_in_month_def)
  from assms(2) show "valid_date d'"
  proof (cases rule: next_day_cases)
    case same_month
    then show ?thesis using v by (simp add: valid_date_def)
  next
    case next_month
    then show ?thesis using v b by (simp add: valid_date_def)
  next
    case next_year
    then show ?thesis using v c by (simp add: valid_date_def MINYEAR_def)
  qed
  from assms(2) show "date_lt d d'"
  proof (cases rule: next_day_cases)
    case same_month
    then show ?thesis by (simp add: date_lt_def)
  next
    case next_month
    then show ?thesis by (simp add: date_lt_def)
  next
    case next_year
    then show ?thesis by (simp add: date_lt_def)
  qed
qed

lemma next_day_least:
  assumes "valid_date b" "date_lt d b" "next_day d = Inr d'"
  shows "date_le d' b"
proof -
  have vb: "1 \<le> month b" "1 \<le> day b" "day b \<le> days_in_month (year b) (month b)"
    using assms(1) by (simp_all add: valid_date_def)
  have lt: "year d < year b \<or> (year d = year b \<and>
      (month d < month b \<or> (month d = month b \<and> day d < day b)))"
    using assms(2) by (simp add: date_lt_def)
  from assms(3) show ?thesis
  proof (cases rule: next_day_cases)
    case same_month
    have f: "year d' = year d" "month d' = month d" "day d' = day d + 1"
      by (simp_all add: same_month(2))
    show ?thesis unfolding date_le_def date_lt_def f using lt by linarith
  next
    case next_month
    have f: "year d' = year d" "month d' = month d + 1" "day d' = 1"
      by (simp_all add: next_month(3))
    have "\<not> (year d = year b \<and> month d = month b)"
    proof
      assume "year d = year b \<and> month d = month b"
      with lt vb(3) next_month(1) show False by simp
    qed
    then show ?thesis unfolding date_le_def date_lt_def f using lt vb(2) by linarith
  next
    case next_year
    have f: "year d' = year d + 1" "month d' = 1" "day d' = 1"
      by (simp_all add: next_year(4))
    have "\<not> (year d = year b \<and> month d = month b)"
    proof
      assume "year d = year b \<and> month d = month b"
      with lt vb(3) next_year(1) show False by simp
    qed
    moreover have "month b \<le> 12" using assms(1) by (simp add: valid_date_def)
    ultimately show ?thesis
      unfolding date_le_def date_lt_def f using lt vb(1,2) next_year(2) by linarith
  qed
qed

lemma days_later_valid:
  "valid_date d \<Longrightarrow> days_later n d = Inr d' \<Longrightarrow> valid_date d' \<and> (0 < n \<longrightarrow> date_lt d d')"
proof (induction n arbitrary: d)
  case 0
  then show ?case by simp
next
  case (Suc n)
  from Suc.prems(2) obtain d1 where n1: "next_day d = Inr d1" and r: "days_later n d1 = Inr d'"
    by (auto split: sum.splits)
  note v1 = next_day_valid [OF Suc.prems(1) n1]
  from Suc.IH [OF v1(1) r] have "valid_date d'" and "0 < n \<longrightarrow> date_lt d1 d'" by simp_all
  moreover have "date_lt d d'"
  proof (cases n)
    case 0
    with r v1(2) show ?thesis by simp
  next
    case (Suc m)
    with \<open>0 < n \<longrightarrow> date_lt d1 d'\<close> v1(2) show ?thesis by (auto intro: date_lt_trans)
  qed
  ultimately show ?case by simp
qed

lemma days_later_add:
  "days_later (a + b) d = (case days_later a d of Inl e \<Rightarrow> Inl e | Inr d' \<Rightarrow> days_later b d')"
  by (induction a arbitrary: d) (auto split: sum.splits)

lemma next_day_early:
  assumes "early j d" "0 \<le> j" "j \<le> 30"
  shows "\<exists>d'. next_day d = Inr d' \<and> early (j + 1) d'"
proof -
  have b: "1 \<le> days_in_month (year d) (month d + 1)"
    using days_in_month_bounds(1) [of "year d" "month d + 1"] by linarith
  have j: "days_in_month (year d) 1 = 31" by (simp add: days_in_month_def)
  show ?thesis
    using assms b j
    by (auto simp: early_def next_day_def valid_date_def MINYEAR_def MAXYEAR_def
        days_in_month_def)
qed

lemma days_later_early:
  "early j d \<Longrightarrow> 0 \<le> j \<Longrightarrow> j + int n \<le> 31 \<Longrightarrow>
   \<exists>d'. days_later n d = Inr d' \<and> early (j + int n) d'"
proof (induction n arbitrary: j d)
  case 0
  then show ?case by simp
next
  case (Suc n)
  from Suc.prems have "j \<le> 30" by simp
  from next_day_early [OF Suc.prems(1,2) this] obtain d1 where
    n1: "next_day d = Inr d1" and e1: "early (j + 1) d1" by blast
  from Suc.prems have "0 \<le> j + 1" "j + 1 + int n \<le> 31" by simp_all
  from Suc.IH [OF e1 this] obtain d' where "days_later n d1 = Inr d'" "early (j + 1 + int n) d'"
    by blast
  with n1 show ?case by (simp add: algebra_simps)
qed

subsection \<open>Posting the due transactions\<close>

lemma set_next_date_PyDate:
  "set_next_date today nm f (PyDate dv) = Some r \<Longrightarrow>
   r = (if date_le today dv then Inr dv else Inl (Uncaught TypeError))"
  by (simp add: set_next_date_def split: if_splits)

lemma advance_next_date_Inr:
  assumes "advance_next_date today t = Some (Inr t')"
  shows "\<exists>d. add_relativedelta (next_date t) (frequency t) = Inr d \<and> date_le today d \<and>
             t' = t\<lparr>next_date := d\<rparr>"
  using assms
  by (auto simp: advance_next_date_def set_next_date_def split: sum.splits if_splits)

lemma record_transaction_Inr:
  assumes "record_transaction today L i = Some (Inr L')"
  shows "\<exists>t'. advance_next_date today (recurring_transactions L ! i) = Some (Inr t') \<and>
     L' = L\<lparr>current_balance := current_balance L + amount (recurring_transactions L ! i),
           transaction_log := transaction_log L @
             [\<lparr>e_date = current_day L, e_name = name (recurring_transactions L ! i),
               e_amount = amount (recurring_transactions L ! i),
               e_balance = current_balance L + amount (recurring_transactions L ! i)\<rparr>],
           recurring_transactions := (recurring_transactions L)[i := t']\<rparr>"
  using assms
  by (auto simp: record_transaction_def Let_def split: option.splits sum.splits)

lemma record_each_Inr:
  assumes "record_each today L js = Some (Inr L')" "distinct js"
  shows "transaction_log L' = transaction_log L @
           post_entries (current_day L) (current_balance L) (map (nth (recurring_transactions L)) js) \<and>
         current_balance L' = foldl (+) (current_balance L)
           (map amount (map (nth (recurring_transactions L)) js)) \<and>
         current_day L' = current_day L \<and> end_day L' = end_day L \<and>
         starting_balance L' = starting_balance L \<and> days L' = days L \<and>
         length (recurring_transactions L') = length (recurring_transactions L) \<and>
         (\<forall>j. j \<notin> set js \<longrightarrow> recurring_transactions L' ! j = recurring_transactions L ! j)"
  using assms
proof (induction js arbitrary: L)
  case Nil
  then show ?case by simp
next
  case (Cons i js)
  from Cons.prems(1) obtain L1 where
    r: "record_transaction today L i = Some (Inr L1)" and
    rest: "record_each today L1 js = Some (Inr L')"
    by (auto split: option.splits sum.splits)
  from record_transaction_Inr [OF r] obtain t' where
    L1: "L1 = L\<lparr>current_balance := current_balance L + amount (recurring_transactions L ! i),
           transaction_log := transaction_log L @
             [\<lparr>e_date = current_day L, e_name = name (recurring_transactions L ! i),
               e_amount = amount (recurring_transactions L ! i),
               e_balance = current_balance L + amount (recurring_transactions L ! i)\<rparr>],
           recurring_transactions := (recurring_transactions L)[i := t']\<rparr>"
    by blast
  from Cons.prems(2) have d: "distinct js" and ni: "i \<notin> set js" by simp_all
  have txs1: "recurring_transactions L1 = (recurring_transactions L)[i := t']"
    by (simp add: L1)
  have keep: "\<And>j. j \<noteq> i \<Longrightarrow> recurring_transactions L1 ! j = recurring_transactions L ! j"
    by (simp add: txs1)
  have same: "map (nth (recurring_transactions L1)) js = map (nth (recurring_transactions L)) js"
  proof (rule map_cong [OF refl])
    fix j assume "j \<in> set js"
    with ni have "j \<noteq> i" by blast
    then show "recurring_transactions L1 ! j = recurring_transactions L ! j" by (rule keep)
  qed
  note IH = Cons.IH [OF rest d, unfolded same]
  have others: "\<forall>j. j \<notin> set (i # js) \<longrightarrow>
      recurring_transactions L' ! j = recurring_transactions L ! j"
    using IH keep by simp
  have fields: "current_day L1 = current_day L" "end_day L1 = end_day L"
    "starting_balance L1 = starting_balance L" "days L1 = days L"
    "length (recurring_transactions L1) = length (recurring_transactions L)"
    "current_balance L1 = current_balance L + amount (recurring_transactions L ! i)"
    "transaction_log L1 = transaction_log L @
             [\<lparr>e_date = current_day L, e_name = name (recurring_transactions L ! i),
               e_amount = amount (recurring_transactions L ! i),
               e_balance = current_balance L + amount (recurring_transactions L ! i)\<rparr>]"
    by (simp_all add: L1)
  show ?case
    using IH others by (simp add: fields)
qed

lemma nth_filter_indices:
  "map (nth xs) (filter (\<lambda>i. P (xs ! i)) [0 ..< length xs]) = filter P xs"
proof -
  have "filter P xs = filter P (map (nth xs) [0 ..< length xs])"
    by (simp add: map_nth)
  also have "\<dots> = map (nth xs) (filter (P \<circ> nth xs) [0 ..< length xs])"
    by (simp only: filter_map)
  finally show ?thesis by (simp add: comp_def)
qed

lemma due_transactions:
  "map (nth (recurring_transactions L)) (get_transactions_for_day L)
     = filter (is_due L) (recurring_transactions L)"
  unfolding get_transactions_for_day_def by (rule nth_filter_indices)

lemma distinct_due: "distinct (get_transactions_for_day L)"
  by (simp add: get_transactions_for_day_def)

lemma date_advance_Inr:
  "date_advance L1 = Inr L' \<Longrightarrow>
   \<exists>d. add_relativedelta (current_day L1) (mk_relativedelta 0 0 0 1) = Inr d \<and>
        L' = L1\<lparr>current_day := d\<rparr>"
  by (auto simp: date_advance_def split: sum.splits)

lemma loop_body_Inr:
  assumes "loop_body today L = Some (Inr L')"
  shows "\<exists>L1. record_each today L (get_transactions_for_day L) = Some (Inr L1) \<and>
              date_advance L1 = Inr L'"
  using assms by (auto simp: loop_body_def split: option.splits sum.splits)

lemma loop_body_log:
  assumes "loop_body today L = Some (Inr L')"
  shows "transaction_log L' = transaction_log L @
           post_entries (current_day L) (current_balance L)
             (filter (is_due L) (recurring_transactions L))"
    and "current_balance L' = foldl (+) (current_balance L)
           (map amount (filter (is_due L) (recurring_transactions L)))"
    and "starting_balance L' = starting_balance L"
    and "end_day L' = end_day L"
    and "length (recurring_transactions L') = length (recurring_transactions L)"
proof -
  from loop_body_Inr [OF assms] obtain L1 where
    r: "record_each today L (get_transactions_for_day L) = Some (Inr L1)" and
    a: "date_advance L1 = Inr L'" by blast
  from date_advance_Inr [OF a] obtain d where L': "L' = L1\<lparr>current_day := d\<rparr>" by blast
  note R = record_each_Inr [OF r distinct_due]
  show "transaction_log L' = transaction_log L @
           post_entries (current_day L) (current_balance L)
             (filter (is_due L) (recurring_transactions L))"
    using R by (simp add: L' due_transactions)
  show "current_balance L' = foldl (+) (current_balance L)
           (map amount (filter (is_due L) (recurring_transactions L)))"
    using R by (simp add: L' due_transactions)
  show "starting_balance L' = starting_balance L" using R by (simp add: L')
  show "end_day L' = end_day L" using R by (simp add: L')
  show "length (recurring_transactions L') = length (recurring_transactions L)"
    using R by (simp add: L')
qed

subsection \<open>The recurrence steps on the calendar\<close>

lemma months_later_cases:
  assumes "valid_date d" "1 \<le> k" "k \<le> 12"
  obtains (carry) "12 < month d + k"
      "months_later k d = (if MAXYEAR < year d + 1 then Inl (Uncaught ValueError)
         else Inr \<lparr>year = year d + 1, month = month d + k - 12,
           day = min (days_in_month (year d + 1) (month d + k - 12)) (day d)\<rparr>)"
    | (same_year) "month d + k \<le> 12"
      "months_later k d = Inr \<lparr>year = year d, month = month d + k,
           day = min (days_in_month (year d) (month d + k)) (day d)\<rparr>"
proof -
  let ?t = "year d * 12 + (month d - 1) + k"
  have m: "1 \<le> month d" "month d \<le> 12" and y: "year d \<le> MAXYEAR"
    using assms(1) by (simp_all add: valid_date_def)
  show ?thesis
  proof (cases "12 < month d + k")
    case True
    have t: "?t = (year d + 1) * 12 + (month d + k - 13)" by simp
    have "?t div 12 = year d + 1" "?t mod 12 = month d + k - 13"
      unfolding t using True m assms(2,3) by (simp_all only: div_mod_12)
    then have "months_later k d = (if MAXYEAR < year d + 1 then Inl (Uncaught ValueError)
         else Inr \<lparr>year = year d + 1, month = month d + k - 12,
           day = min (days_in_month (year d + 1) (month d + k - 12)) (day d)\<rparr>)"
      by (simp add: months_later_def Let_def)
    with True show ?thesis by (rule carry)
  next
    case False
    have t: "?t = year d * 12 + (month d + k - 1)" by simp
    have "?t div 12 = year d" "?t mod 12 = month d + k - 1"
      unfolding t using False m assms(2,3) by (simp_all only: div_mod_12)
    then have "months_later k d = Inr \<lparr>year = year d, month = month d + k,
           day = min (days_in_month (year d) (month d + k)) (day d)\<rparr>"
      using y by (simp add: months_later_def Let_def)
    moreover from False have "month d + k \<le> 12" by simp
    ultimately show ?thesis by (rule same_year [rotated])
  qed
qed

lemma min_day_valid:
  assumes "1 \<le> dd"
  shows "1 \<le> min (days_in_month y m) dd" "min (days_in_month y m) dd \<le> days_in_month y m"
  using assms days_in_month_bounds(1) [of y m] by simp_all

lemma months_later_valid:
  assumes "valid_date d" "1 \<le> k" "k \<le> 12" "months_later k d = Inr d'"
  shows "valid_date d'" "date_lt d d'"
proof -
  have v: "MINYEAR \<le> year d" "year d \<le> MAXYEAR" "1 \<le> month d" "month d \<le> 12" "1 \<le> day d"
    using assms(1) by (simp_all add: valid_date_def)
  note md = min_day_valid [OF v(5)]
  from assms(1-3) show "valid_date d'"
  proof (cases rule: months_later_cases)
    case carry
    with assms(4) have d': "d' = \<lparr>year = year d + 1, month = month d + k - 12,
           day = min (days_in_month (year d + 1) (month d + k - 12)) (day d)\<rparr>"
      and y: "\<not> MAXYEAR < year d + 1"
      by (simp_all split: if_splits)
    show ?thesis
      using v y carry(1) assms(3) md [of "year d + 1" "month d + k - 12"]
      by (simp add: d' valid_date_def MINYEAR_def)
  next
    case same_year
    with assms(4) have d': "d' = \<lparr>year = year d, month = month d + k,
           day = min (days_in_month (year d) (month d + k)) (day d)\<rparr>"
      by simp
    show ?thesis
      using v same_year(1) assms(2) md [of "year d" "month d + k"]
      by (simp add: d' valid_date_def)
  qed
  from assms(1-3) show "date_lt d d'"
  proof (cases rule: months_later_cases)
    case carry
    with assms(4) have "year d' = year d + 1" by (auto split: if_splits)
    then show ?thesis by (simp add: date_lt_def)
  next
    case same_year
    with assms(4) have "year d' = year d" "month d' = month d + k" by auto
    then show ?thesis using assms(2) by (simp add: date_lt_def)
  qed
qed

lemma months_later_exists:
  assumes "valid_date d" "1 \<le> k" "k \<le> 12" "year d < MAXYEAR"
  shows "\<exists>d'. months_later k d = Inr d'"
  using assms(1-3)
proof (cases rule: months_later_cases)
  case carry
  then show ?thesis using assms(4) by simp
next
  case same_year
  then show ?thesis by simp
qed

lemma add_step_cases:
  assumes "is_step f" "valid_date d"
  obtains (by_days) n where "0 < n" "n \<le> 14" "add_relativedelta d f = days_later n d"
    | (by_months) k where "1 \<le> k" "k \<le> 12" "add_relativedelta d f = months_later k d"
proof -
  from assms(1) have "f = \<lparr>rd_years = 0, rd_months = 0, rd_days = 1\<rparr> \<or>
      f = \<lparr>rd_years = 0, rd_months = 0, rd_days = 7\<rparr> \<or>
      f = \<lparr>rd_years = 0, rd_months = 0, rd_days = 14\<rparr> \<or>
      f = \<lparr>rd_years = 0, rd_months = 1, rd_days = 0\<rparr> \<or>
      f = \<lparr>rd_years = 0, rd_months = 3, rd_days = 0\<rparr> \<or>
      f = \<lparr>rd_years = 0, rd_months = 6, rd_days = 0\<rparr> \<or>
      f = \<lparr>rd_years = 1, rd_months = 0, rd_days = 0\<rparr>"
    by (simp only: is_step_def)
  then show ?thesis
  proof (elim disjE)
    assume "f = \<lparr>rd_years = 0, rd_months = 0, rd_days = 1\<rparr>"
    then have "add_relativedelta d f = days_later 1 d"
      using add_days_step [OF assms(2), of 1] by simp
    then show ?thesis by (rule by_days [of 1, rotated 2]) simp_all
  next
    assume "f = \<lparr>rd_years = 0, rd_months = 0, rd_days = 7\<rparr>"
    then have "add_relativedelta d f = days_later 7 d"
      using add_days_step [OF assms(2), of 7] by simp
    then show ?thesis by (rule by_days [of 7, rotated 2]) simp_all
  next
    assume "f = \<lparr>rd_years = 0, rd_months = 0, rd_days = 14\<rparr>"
    then have "add_relativedelta d f = days_later 14 d"
      using add_days_step [OF assms(2), of 14] by simp
    then show ?thesis by (rule by_days [of 14, rotated 2]) simp_all
  next
    assume "f = \<lparr>rd_years = 0, rd_months = 1, rd_days = 0\<rparr>"
    then have "add_relativedelta d f = months_later 1 d"
      using add_months_step [OF assms(2), of 1] by simp
    then show ?thesis by (rule by_months [of 1, rotated 2]) simp_all
  next
    assume "f = \<lparr>rd_years = 0, rd_months = 3, rd_days = 0\<rparr>"
    then have "add_relativedelta d f = months_later 3 d"
      using add_months_step [OF assms(2), of 3] by simp
    then show ?thesis by (rule by_months [of 3, rotated 2]) simp_all
  next
    assume "f = \<lparr>rd_years = 0, rd_months = 6, rd_days = 0\<rparr>"
    then have "add_relativedelta d f = months_later 6 d"
      using add_months_step [OF assms(2), of 6] by simp
    then show ?thesis by (rule by_months [of 6, rotated 2]) simp_all
  next
    assume "f = \<lparr>rd_years = 1, rd_months = 0, rd_days = 0\<rparr>"
    then have "add_relativedelta d f = months_later 12 d"
      using add_year_step [OF assms(2)] by simp
    then show ?thesis by (rule by_months [of 12, rotated 2]) simp_all
  qed
qed

lemma add_step_valid:
  assumes "is_step f" "valid_date d" "add_relativedelta d f = Inr d'"
  shows "valid_date d'" "date_lt d d'"
proof -
  from assms(1,2) have "valid_date d' \<and> date_lt d d'"
  proof (cases rule: add_step_cases)
    case (by_days n)
    with assms(3) have "days_later n d = Inr d'" by simp
    from days_later_valid [OF assms(2) this] by_days(1) show ?thesis by simp
  next
    case (by_months k)
    with assms(3) have "months_later k d = Inr d'" by simp
    from months_later_valid [OF assms(2) by_months(1,2) this] show ?thesis by simp
  qed
  then show "valid_date d'" "date_lt d d'" by simp_all
qed

lemma add_step_exists:
  assumes "is_step f" "valid_date d" "year d < MAXYEAR"
  shows "\<exists>d'. add_relativedelta d f = Inr d'"
  using assms(1,2)
proof (cases rule: add_step_cases)
  case (by_days n)
  have "early 0 d" using assms(2,3) by (simp add: early_def)
  moreover have "0 + int n \<le> 31" using by_days(2) by simp
  ultimately obtain d' where "days_later n d = Inr d'"
    using days_later_early [of 0 d n] by auto
  with by_days(3) show ?thesis by simp
next
  case (by_months k)
  from months_later_exists [OF assms(2) by_months(1,2) assms(3)] by_months(3)
  show ?thesis by simp
qed

lemma set_frequency_is_step:
  assumes "set_frequency nm v = Inr f"
  shows "is_step f"
proof (cases v)
  case None
  with assms show ?thesis by (simp add: set_frequency_def)
next
  case (Some s)
  show ?thesis
  proof (cases "s \<in> set valid_freq")
    case False
    with assms Some show ?thesis by (simp add: set_frequency_def)
  next
    case True
    from valid_freq_cases [OF True] show ?thesis
    proof (elim disjE)
      assume "s = ''daily''"
      with assms Some show ?thesis by (simp add: set_frequency_values is_step_def)
    next
      assume "s = ''weekly''"
      with assms Some show ?thesis by (simp add: set_frequency_values is_step_def)
    next
      assume "s = ''biweekly''"
      with assms Some show ?thesis by (simp add: set_frequency_values is_step_def)
    next
      assume "s = ''monthly''"
      with assms Some show ?thesis by (simp add: set_frequency_values is_step_def)
    next
      assume "s = ''quarterly''"
      with assms Some show ?thesis by (simp add: set_frequency_values is_step_def)
    next
      assume "s = ''semiyearly''"
      with assms Some show ?thesis by (simp add: set_frequency_values is_step_def)
    next
      assume "s = ''yearly''"
      with assms Some show ?thesis by (simp add: set_frequency_values is_step_def)
    qed
  qed
qed

subsection \<open>Rolling a past date forward\<close>

lemma ord32_mono:
  assumes "valid_date a" "valid_date b" "date_lt a b"
  shows "ord32 a < ord32 b"
proof -
  have a: "1 \<le> month a" "month a \<le> 12" "1 \<le> day a" "day a \<le> 31"
    using assms(1) days_in_month_bounds(2) [of "year a" "month a"]
    by (simp_all add: valid_date_def)
  have b: "1 \<le> month b" "month b \<le> 12" "1 \<le> day b" "day b \<le> 31"
    using assms(2) days_in_month_bounds(2) [of "year b" "month b"]
    by (simp_all add: valid_date_def)
  from assms(3) have "year a < year b \<or> (year a = year b \<and>
      (month a < month b \<or> (month a = month b \<and> day a < day b)))"
    by (simp add: date_lt_def)
  then show ?thesis unfolding ord32_def using a b by linarith
qed

lemma roll_forward_terminates:
  assumes "valid_date today" "is_step f" "valid_date d"
  shows "\<exists>n. roll_forward today f d = Some (steps_forward n f d) \<and>
             (\<forall>k<n. \<exists>dk. steps_forward k f d = Inr dk \<and> date_lt dk today) \<and>
             (\<forall>d'. steps_forward n f d = Inr d' \<longrightarrow> date_le today d' \<and> valid_date d') \<and>
             (date_lt d today \<longrightarrow> 0 < n)"
  using assms(3)
proof (induction "nat (ord32 today - ord32 d)" arbitrary: d rule: less_induct)
  case less
  show ?case
  proof (cases "date_lt d today")
    case False
    then have "roll_forward today f d = Some (steps_forward 0 f d)"
      by (subst roll_forward.simps) simp
    moreover have "date_le today d" using False by (simp add: date_le_def)
    ultimately show ?thesis using less.prems False by (intro exI [of _ 0]) simp
  next
    case True
    show ?thesis
    proof (cases "add_relativedelta d f")
      case (Inl e)
      with True have "roll_forward today f d = Some (steps_forward 1 f d)"
        by (subst roll_forward.simps) simp
      moreover have "\<forall>k<1. \<exists>dk. steps_forward k f d = Inr dk \<and> date_lt dk today"
        using True by simp
      moreover have "\<forall>d'. steps_forward 1 f d = Inr d' \<longrightarrow> date_le today d' \<and> valid_date d'"
        using Inl by simp
      ultimately show ?thesis by (intro exI [of _ 1]) simp
    next
      case (Inr d1)
      note v1 = add_step_valid [OF assms(2) less.prems Inr]
      have "ord32 d < ord32 d1" by (rule ord32_mono [OF less.prems v1])
      moreover have "ord32 d < ord32 today" by (rule ord32_mono [OF less.prems assms(1) True])
      ultimately have "nat (ord32 today - ord32 d1) < nat (ord32 today - ord32 d)" by linarith
      from less.hyps [OF this v1(1)] obtain n where
        r: "roll_forward today f d1 = Some (steps_forward n f d1)" and
        b: "\<forall>k<n. \<exists>dk. steps_forward k f d1 = Inr dk \<and> date_lt dk today" and
        e: "\<forall>d'. steps_forward n f d1 = Inr d' \<longrightarrow> date_le today d' \<and> valid_date d'"
        by blast
      have "roll_forward today f d = Some (steps_forward (Suc n) f d)"
        using True Inr r by (subst roll_forward.simps) simp
      moreover have "\<forall>k<Suc n. \<exists>dk. steps_forward k f d = Inr dk \<and> date_lt dk today"
      proof (intro allI impI)
        fix k assume "k < Suc n"
        show "\<exists>dk. steps_forward k f d = Inr dk \<and> date_lt dk today"
        proof (cases k)
          case 0
          with True show ?thesis by simp
        next
          case (Suc j)
          with \<open>k < Suc n\<close> b Inr show ?thesis by simp
        qed
      qed
      moreover have "\<forall>d'. steps_forward (Suc n) f d = Inr d' \<longrightarrow> date_le today d' \<and> valid_date d'"
        using e Inr by simp
      ultimately show ?thesis by (intro exI [of _ "Suc n"]) simp
    qed
  qed
qed

lemma steps_forward_below:
  assumes "valid_date today" "year today < MAXYEAR" "is_step f"
  shows "valid_date d \<Longrightarrow>
         \<forall>k<n. \<exists>dk. steps_forward k f d = Inr dk \<and> date_lt dk today \<Longrightarrow>
         \<exists>d'. steps_forward n f d = Inr d' \<and> valid_date d'"
proof (induction n arbitrary: d)
  case 0
  then show ?case by simp
next
  case (Suc n)
  from Suc.prems(2) have lt: "date_lt d today" by fastforce
  then have "year d \<le> year today" by (auto simp: date_lt_def)
  with assms(2) have "year d < MAXYEAR" by simp
  from add_step_exists [OF assms(3) Suc.prems(1) this] obtain d1 where
    a: "add_relativedelta d f = Inr d1" by blast
  note v1 = add_step_valid [OF assms(3) Suc.prems(1) a]
  have "\<forall>k<n. \<exists>dk. steps_forward k f d1 = Inr dk \<and> date_lt dk today"
  proof (intro allI impI)
    fix k assume "k < n"
    then have "Suc k < Suc n" by simp
    with Suc.prems(2) obtain dk where "steps_forward (Suc k) f d = Inr dk \<and> date_lt dk today"
      by blast
    with a show "\<exists>dk. steps_forward k f d1 = Inr dk \<and> date_lt dk today" by simp
  qed
  from Suc.IH [OF v1(1) this] a show ?case by simp
qed

lemma fromisoformat_valid: "fromisoformat s = Some d \<Longrightarrow> valid_date d"
  by (auto simp: fromisoformat_def Let_def split: if_splits option.splits)

subsection \<open>The next-date setter\<close>

text \<open>
  Claim C3. Let today be a date before the last year of the calendar, the frequency one
  the frequency setter has stored, and the value a string that parses to the date \<open>d\<close>.
  If \<open>d\<close> is strictly before today, the setter adds the recurrence step a whole number
  \<open>n > 0\<close> of times, one step after the other: every date reached before the last step is
  still before today, and the date stored is today or later. A date that is not before
  today, today itself included, is stored unchanged.
\<close>

theorem next_date_rolls_forward_by_whole_steps:
  assumes "valid_date today" "year today < MAXYEAR" "set_frequency nm c = Inr f"
    "fromisoformat s = Some d"
  shows "(date_lt d today \<longrightarrow>
            (\<exists>n d'. 0 < n \<and> set_next_date today nm f (PyStr s) = Some (Inr d') \<and>
               steps_forward n f d = Inr d' \<and> date_le today d' \<and>
               (\<forall>k<n. \<exists>dk. steps_forward k f d = Inr dk \<and> date_lt dk today))) \<and>
         (\<not> date_lt d today \<longrightarrow> set_next_date today nm f (PyStr s) = Some (Inr d)) \<and>
         (d = today \<longrightarrow> set_next_date today nm f (PyStr s) = Some (Inr today))"
proof -
  have st: "is_step f" using assms(3) by (rule set_frequency_is_step)
  have vd: "valid_date d" using assms(4) by (rule fromisoformat_valid)
  have setter: "set_next_date today nm f (PyStr s) = roll_forward today f d"
    using assms(4) by (simp add: set_next_date_def)
  have past: "\<exists>n d'. 0 < n \<and> set_next_date today nm f (PyStr s) = Some (Inr d') \<and>
               steps_forward n f d = Inr d' \<and> date_le today d' \<and>
               (\<forall>k<n. \<exists>dk. steps_forward k f d = Inr dk \<and> date_lt dk today)"
    if lt: "date_lt d today"
  proof -
    from roll_forward_terminates [OF assms(1) st vd] lt obtain n where
      r: "roll_forward today f d = Some (steps_forward n f d)" and
      b: "\<forall>k<n. \<exists>dk. steps_forward k f d = Inr dk \<and> date_lt dk today" and
      e: "\<forall>d'. steps_forward n f d = Inr d' \<longrightarrow> date_le today d' \<and> valid_date d'" and
      n: "0 < n"
      by blast
    from steps_forward_below [OF assms(1,2) st vd b] obtain d' where
      d': "steps_forward n f d = Inr d'" by blast
    with e have "date_le today d'" by blast
    with r d' b n setter show ?thesis by auto
  qed
  have future: "set_next_date today nm f (PyStr s) = Some (Inr d)" if "\<not> date_lt d today"
    using that setter by (subst (asm) roll_forward.simps) simp
  have "\<not> date_lt today today" by (rule date_lt_irrefl)
  with past future show ?thesis by blast
qed

text \<open>
  On 3 November 2026, a monthly transaction entered with 31 January 2026 takes ten steps,
  through 28 February, and is next due on 28 November 2026.
\<close>

theorem next_date_rolls_forward_by_whole_steps_witness:
  "valid_date \<lparr>year = 2026, month = 11, day = 3\<rparr> \<and>
   year \<lparr>year = 2026, month = 11, day = 3\<rparr> < MAXYEAR \<and>
   set_frequency (Some ''Rent'') (Some ''monthly'')
     = Inr \<lparr>rd_years = 0, rd_months = 1, rd_days = 0\<rparr> \<and>
   fromisoformat ''2026-01-31'' = Some \<lparr>year = 2026, month = 1, day = 31\<rparr> \<and>
   date_lt \<lparr>year = 2026, month = 1, day = 31\<rparr> \<lparr>year = 2026, month = 11, day = 3\<rparr> \<and>
   set_next_date \<lparr>year = 2026, month = 11, day = 3\<rparr> (Some ''Rent'')
       \<lparr>rd_years = 0, rd_months = 1, rd_days = 0\<rparr> (PyStr ''2026-01-31'')
     = Some (Inr \<lparr>year = 2026, month = 11, day = 28\<rparr>) \<and>
   steps_forward 10 \<lparr>rd_years = 0, rd_months = 1, rd_days = 0\<rparr>
       \<lparr>year = 2026, month = 1, day = 31\<rparr>
     = Inr \<lparr>year = 2026, month = 11, day = 28\<rparr> \<and>
   steps_forward 9 \<lparr>rd_years = 0, rd_months = 1, rd_days = 0\<rparr>
       \<lparr>year = 2026, month = 1, day = 31\<rparr>
     = Inr \<lparr>year = 2026, month = 10, day = 28\<rparr> \<and>
   date_le \<lparr>year = 2026, month = 11, day = 3\<rparr> \<lparr>year = 2026, month = 11, day = 28\<rparr>"
proof -
  have v: "valid_date \<lparr>year = 2026, month = 11, day = 3\<rparr>"
    by (simp add: valid_date_def days_in_month_def MINYEAR_def MAXYEAR_def)
  have y: "year \<lparr>year = 2026, month = 11, day = 3\<rparr> < MAXYEAR"
    by (simp add: MAXYEAR_def)
  have f: "set_frequency (Some ''Rent'') (Some ''monthly'')
     = Inr \<lparr>rd_years = 0, rd_months = 1, rd_days = 0\<rparr>"
    by (rule set_frequency_values)
  have p: "fromisoformat ''2026-01-31'' = Some \<lparr>year = 2026, month = 1, day = 31\<rparr>"
    by (simp add: fromisoformat_def digit_of_def valid_date_def days_in_month_def MINYEAR_def
        MAXYEAR_def)
  have lt: "date_lt \<lparr>year = 2026, month = 1, day = 31\<rparr> \<lparr>year = 2026, month = 11, day = 3\<rparr>"
    by (simp add: date_lt_def)
  have s10: "steps_forward 10 \<lparr>rd_years = 0, rd_months = 1, rd_days = 0\<rparr>
       \<lparr>year = 2026, month = 1, day = 31\<rparr>
     = Inr \<lparr>year = 2026, month = 11, day = 28\<rparr>"
    by code_simp
  have s9: "steps_forward 9 \<lparr>rd_years = 0, rd_months = 1, rd_days = 0\<rparr>
       \<lparr>year = 2026, month = 1, day = 31\<rparr>
     = Inr \<lparr>year = 2026, month = 10, day = 28\<rparr>"
    by code_simp
  have le: "date_le \<lparr>year = 2026, month = 11, day = 3\<rparr> \<lparr>year = 2026, month = 11, day = 28\<rparr>"
    by (simp add: date_le_def date_lt_def)
  have r: "set_next_date \<lparr>year = 2026, month = 11, day = 3\<rparr> (Some ''Rent'')
       \<lparr>rd_years = 0, rd_months = 1, rd_days = 0\<rparr> (PyStr ''2026-01-31'')
     = Some (Inr \<lparr>year = 2026, month = 11, day = 28\<rparr>)"
    by code_simp
  from next_date_rolls_forward_by_whole_steps [OF v y f p] lt
  show ?thesis using v y f p s10 s9 le r by simp
qed

subsection \<open>Construction of the transactions and of the ledger\<close>

lemma set_next_date_str:
  assumes "valid_date today" "is_step f" "set_next_date today nm f (pyval_of x) = Some (Inr d)"
  shows "valid_date d" "date_le today d"
proof -
  from assms(3) obtain s d0 where x: "x = Some s" and p: "fromisoformat s = Some d0"
    and r: "roll_forward today f d0 = Some (Inr d)"
    by (cases x) (auto simp: set_next_date_def split: option.splits)
  from roll_forward_terminates [OF assms(1,2) fromisoformat_valid [OF p]] r
  obtain n where "steps_forward n f d0 = Inr d"
    and "\<forall>d'. steps_forward n f d0 = Inr d' \<longrightarrow> date_le today d' \<and> valid_date d'"
    by auto
  then show "valid_date d" "date_le today d" by blast+
qed

lemma RecurringTransaction_init_Inr:
  assumes "valid_date today" "RecurringTransaction_init F today r = Some (Inr t)"
  shows "transaction_ok today t" "name t = row_name r"
proof -
  from assms(2) obtain tt sg a f d where
    f: "set_frequency (row_name r) (row_frequency r) = Inr f" and
    d: "set_next_date today (row_name r) f (pyval_of (row_next_date r)) = Some (Inr d)" and
    t: "t = \<lparr>name = row_name r, sign = sg, transaction_type = tt, amount = a, frequency = f,
             next_date = d\<rparr>"
    by (auto simp: RecurringTransaction_init_def split: sum.splits option.splits prod.splits)
  note st = set_frequency_is_step [OF f]
  from set_next_date_str [OF assms(1) st d] st
  show "transaction_ok today t" by (simp add: t transaction_ok_def)
  show "name t = row_name r" by (simp add: t)
qed

lemma construct_rows_Inr:
  assumes "valid_date today"
  shows "construct_rows F today rs = Some (Inr ts) \<Longrightarrow>
         (\<forall>t \<in> set ts. transaction_ok today t) \<and> map name ts = map row_name rs"
proof (induction rs arbitrary: ts)
  case Nil
  then show ?case by simp
next
  case (Cons r rs)
  from Cons.prems obtain t ts' where
    t: "RecurringTransaction_init F today r = Some (Inr t)" and
    r: "construct_rows F today rs = Some (Inr ts')" and ts: "ts = t # ts'"
    by (auto split: option.splits sum.splits)
  from RecurringTransaction_init_Inr [OF assms t] Cons.IH [OF r] show ?case
    by (simp add: ts)
qed

lemma Ledger_init_Inr:
  assumes "Ledger_init F today csv n sb = Some (Inr L)"
  shows "\<exists>ed ts. add_relativedelta today \<lparr>rd_years = 0, rd_months = 0, rd_days = n\<rparr> = Inr ed \<and>
     construct_rows F today (rows csv) = Some (Inr ts) \<and>
     validate_input_fields (fieldnames csv) = Inr () \<and>
     L = \<lparr>days = n, starting_balance = sb, current_day = today, end_day = ed,
          recurring_transactions = ts,
          transaction_log = [\<lparr>e_date = today, e_name = Some ''Opening Balance'',
                              e_amount = sb, e_balance = sb\<rparr>],
          current_balance = sb\<rparr>"
  using assms
  by (auto simp: Ledger_init_def import_transactions_def record_starting_balance_to_ledger_def
      mk_relativedelta_def split: sum.splits option.splits)

lemma Ledger_init_ok:
  assumes "valid_date today" "Ledger_init F today csv n sb = Some (Inr L)"
  shows "ledger_ok today L"
proof -
  from Ledger_init_Inr [OF assms(2)] obtain ed ts where
    c: "construct_rows F today (rows csv) = Some (Inr ts)" and
    L: "current_day L = today" "recurring_transactions L = ts"
    by auto
  from construct_rows_Inr [OF assms(1) c] assms(1) show ?thesis
    by (simp add: ledger_ok_def L date_le_refl)
qed

subsection \<open>The loop and its iterations\<close>

lemma advance_next_date_total: "\<exists>r. advance_next_date today t = Some r"
  by (simp add: advance_next_date_def set_next_date_def split: sum.splits)

lemma record_transaction_total: "\<exists>r. record_transaction today L i = Some r"
proof -
  obtain r where "advance_next_date today (recurring_transactions L ! i) = Some r"
    using advance_next_date_total by blast
  then show ?thesis by (cases r) (simp_all add: record_transaction_def Let_def)
qed

lemma record_each_total: "\<exists>r. record_each today L js = Some r"
proof (induction js arbitrary: L)
  case Nil
  then show ?case by simp
next
  case (Cons i js)
  obtain r where r: "record_transaction today L i = Some r"
    using record_transaction_total by blast
  show ?case
  proof (cases r)
    case (Inl e)
    with r show ?thesis by simp
  next
    case (Inr L1)
    with r Cons.IH [of L1] show ?thesis by simp
  qed
qed

lemma loop_body_total: "\<exists>r. loop_body today L = Some r"
proof -
  obtain r where r: "record_each today L (get_transactions_for_day L) = Some r"
    using record_each_total by blast
  then show ?thesis by (cases r) (simp_all add: loop_body_def)
qed

lemma iterations_total: "\<exists>r. iterations n today L = Some r"
proof (induction n arbitrary: L)
  case 0
  then show ?case by simp
next
  case (Suc n)
  obtain r where r: "loop_body today L = Some r" using loop_body_total by blast
  show ?case
  proof (cases r)
    case (Inl e)
    with r show ?thesis by simp
  next
    case (Inr L1)
    with r Suc.IH [of L1] show ?thesis by simp
  qed
qed

lemma iterations_Suc_end:
  "iterations n today L = Some (Inr Ln) \<Longrightarrow> iterations (Suc n) today L = loop_body today Ln"
proof (induction n arbitrary: L)
  case 0
  then show ?case by (simp split: option.splits sum.splits)
next
  case (Suc n)
  from Suc.prems obtain L1 where b: "loop_body today L = Some (Inr L1)"
    and r: "iterations n today L1 = Some (Inr Ln)"
    by (auto split: option.splits sum.splits)
  from Suc.IH [OF r] b show ?case by simp
qed

lemma iterations_prefix:
  "iterations (Suc n) today L = Some (Inr L') \<Longrightarrow>
   \<exists>Ln. iterations n today L = Some (Inr Ln) \<and> loop_body today Ln = Some (Inr L')"
proof (induction n arbitrary: L)
  case 0
  then show ?case by (auto split: option.splits sum.splits)
next
  case (Suc n)
  from Suc.prems obtain L1 where b: "loop_body today L = Some (Inr L1)"
    and r: "iterations (Suc n) today L1 = Some (Inr L')"
    by (auto split: option.splits sum.splits)
  from Suc.IH [OF r] b show ?case by simp
qed

lemma iterations_invariant:
  assumes "\<And>L L1. I L \<Longrightarrow> loop_body today L = Some (Inr L1) \<Longrightarrow> I L1"
  shows "I L \<Longrightarrow> iterations n today L = Some (Inr L') \<Longrightarrow> I L'"
proof (induction n arbitrary: L)
  case 0
  then show ?case by simp
next
  case (Suc n)
  from Suc.prems(2) obtain L1 where b: "loop_body today L = Some (Inr L1)"
    and r: "iterations n today L1 = Some (Inr L')"
    by (auto split: option.splits sum.splits)
  from Suc.IH [OF assms [OF Suc.prems(1) b] r] show ?case .
qed

lemma run_loop_iterations:
  "\<forall>k<n. \<forall>Lk. iterations k today L = Some (Inr Lk) \<longrightarrow> is_active Lk \<Longrightarrow>
   \<forall>Ln. iterations n today L = Some (Inr Ln) \<longrightarrow> \<not> is_active Ln \<Longrightarrow>
   run_loop today L = iterations n today L"
proof (induction n arbitrary: L)
  case 0
  then have "\<not> is_active L" by simp
  then show ?case by (subst run_loop.simps) simp
next
  case (Suc n)
  from Suc.prems(1) have act: "is_active L" by fastforce
  obtain r where r: "loop_body today L = Some r" using loop_body_total by blast
  show ?case
  proof (cases r)
    case (Inl e)
    with r act show ?thesis by (subst run_loop.simps) simp
  next
    case (Inr L1)
    have a: "\<forall>k<n. \<forall>Lk. iterations k today L1 = Some (Inr Lk) \<longrightarrow> is_active Lk"
    proof (intro allI impI)
      fix k Lk assume "k < n" "iterations k today L1 = Some (Inr Lk)"
      with r Inr have "Suc k < Suc n" "iterations (Suc k) today L = Some (Inr Lk)" by simp_all
      with Suc.prems(1) show "is_active Lk" by blast
    qed
    have b: "\<forall>Ln. iterations n today L1 = Some (Inr Ln) \<longrightarrow> \<not> is_active Ln"
      using Suc.prems(2) r Inr by simp
    from Suc.IH [OF a b] r Inr act show ?thesis by (subst run_loop.simps) simp
  qed
qed

lemma run_loop_Inr_iterations:
  assumes "run_loop today L = Some (Inr L')"
  shows "\<exists>n. iterations n today L = Some (Inr L')"
proof -
  define P where "P = (\<lambda>t (K :: 'a Ledger) (y :: error + 'a Ledger).
    \<forall>M. y = Inr M \<longrightarrow> (\<exists>n. iterations n t K = Some (Inr M)))"
  have "P today L (Inr L')"
  proof (rule run_loop.raw_induct [where P = P])
    fix f t and K :: "'a Ledger" and y
    assume IH: "\<And>t K y. f t K = Some y \<Longrightarrow> P t K y"
    assume body: "(if is_active K
      then case loop_body t K of None \<Rightarrow> None | Some (Inl e) \<Rightarrow> Some (Inl e)
           | Some (Inr K') \<Rightarrow> f t K'
      else Some (Inr K)) = Some y"
    show "P t K y"
      unfolding P_def
    proof (intro allI impI)
      fix M assume y: "y = Inr M"
      show "\<exists>n. iterations n t K = Some (Inr M)"
      proof (cases "is_active K")
        case False
        with body y have "M = K" by simp
        then have "iterations 0 t K = Some (Inr M)" by simp
        then show ?thesis by blast
      next
        case True
        with body y obtain K1 where b: "loop_body t K = Some (Inr K1)"
          and r: "f t K1 = Some (Inr M)"
          by (auto split: option.splits sum.splits)
        from IH [OF r] obtain n where "iterations n t K1 = Some (Inr M)"
          unfolding P_def by blast
        with b have "iterations (Suc n) t K = Some (Inr M)" by simp
        then show ?thesis by blast
      qed
    qed
  next
    show "run_loop today L = Some (Inr L')" by (rule assms)
  qed
  then show ?thesis unfolding P_def by simp
qed

subsection \<open>The current day and the transactions in an iteration\<close>

lemma mk_days: "mk_relativedelta 0 0 0 n = \<lparr>rd_years = 0, rd_months = 0, rd_days = n\<rparr>"
  by (simp add: mk_relativedelta_def)

lemma date_advance_next_day:
  assumes "valid_date (current_day L)"
  shows "date_advance L = (case next_day (current_day L) of
           Inl e \<Rightarrow> Inl e | Inr d \<Rightarrow> Inr (L\<lparr>current_day := d\<rparr>))"
proof -
  have "add_relativedelta (current_day L) (mk_relativedelta 0 0 0 1)
      = days_later 1 (current_day L)"
    using add_days_step [OF assms, of 1] by (simp add: mk_days)
  then show ?thesis by (simp add: date_advance_def split: sum.splits)
qed

lemma loop_body_day:
  assumes "valid_date (current_day L)" "loop_body today L = Some (Inr L')"
  shows "next_day (current_day L) = Inr (current_day L')" "end_day L' = end_day L"
proof -
  from loop_body_Inr [OF assms(2)] obtain L1 where
    r: "record_each today L (get_transactions_for_day L) = Some (Inr L1)" and
    a: "date_advance L1 = Inr L'" by blast
  note R = record_each_Inr [OF r distinct_due]
  from R have c: "current_day L1 = current_day L" and e: "end_day L1 = end_day L" by simp_all
  from a date_advance_next_day [of L1] assms(1) c
  show "next_day (current_day L) = Inr (current_day L')"
    by (auto split: sum.splits)
  from a e show "end_day L' = end_day L"
    by (auto simp: date_advance_def split: sum.splits)
qed

lemma iterations_day:
  "valid_date (current_day L) \<Longrightarrow> iterations k today L = Some (Inr Lk) \<Longrightarrow>
   days_later k (current_day L) = Inr (current_day Lk) \<and> valid_date (current_day Lk) \<and>
   end_day Lk = end_day L"
proof (induction k arbitrary: L)
  case 0
  then show ?case by simp
next
  case (Suc k)
  from Suc.prems(2) obtain L1 where b: "loop_body today L = Some (Inr L1)"
    and r: "iterations k today L1 = Some (Inr Lk)"
    by (auto split: option.splits sum.splits)
  note d = loop_body_day [OF Suc.prems(1) b]
  note v1 = next_day_valid(1) [OF Suc.prems(1) d(1)]
  from Suc.IH [OF v1 r] d show ?case by simp
qed

lemma days_later_less:
  assumes "valid_date d" "days_later j d = Inr a" "days_later (j + Suc m) d = Inr b"
  shows "date_lt a b"
proof -
  have "days_later (j + Suc m) d = days_later (Suc m) a"
    by (simp only: days_later_add [of j "Suc m" d] assms(2) sum.case)
  with assms(3) have s: "days_later (Suc m) a = Inr b" by simp
  have "valid_date a" using days_later_valid [OF assms(1,2)] by simp
  from days_later_valid [OF this s] show ?thesis by simp
qed

lemma days_later_order:
  assumes "valid_date d" "days_later j d = Inr a" "days_later k d = Inr b"
  shows "date_lt a b \<longleftrightarrow> j < k"
proof
  assume lt: "date_lt a b"
  show "j < k"
  proof (rule ccontr)
    assume n: "\<not> j < k"
    show False
    proof (cases "k = j")
      case True
      with assms(2,3) have "a = b" by simp
      with lt show False by (simp add: date_lt_irrefl)
    next
      case False
      with n have "j = k + Suc (j - k - 1)" by simp
      with assms(2) have "days_later (k + Suc (j - k - 1)) d = Inr a" by simp
      from days_later_less [OF assms(1,3) this] lt show False by (simp add: date_lt_asym)
    qed
  qed
next
  assume "j < k"
  then have "k = j + Suc (k - j - 1)" by simp
  with assms(3) have "days_later (j + Suc (k - j - 1)) d = Inr b" by simp
  from days_later_less [OF assms(1,2) this] show "date_lt a b" .
qed

lemma record_each_advances:
  "record_each today L js = Some (Inr L') \<Longrightarrow> distinct js \<Longrightarrow>
   \<forall>j \<in> set js. j < length (recurring_transactions L) \<Longrightarrow>
   \<forall>j \<in> set js. \<exists>d.
     add_relativedelta (next_date (recurring_transactions L ! j))
       (frequency (recurring_transactions L ! j)) = Inr d \<and>
     date_le today d \<and>
     recurring_transactions L' ! j = (recurring_transactions L ! j)\<lparr>next_date := d\<rparr>"
proof (induction js arbitrary: L)
  case Nil
  then show ?case by simp
next
  case (Cons i js)
  from Cons.prems(1) obtain L1 where
    r: "record_transaction today L i = Some (Inr L1)" and
    rest: "record_each today L1 js = Some (Inr L')"
    by (auto split: option.splits sum.splits)
  from record_transaction_Inr [OF r] obtain t' where
    adv: "advance_next_date today (recurring_transactions L ! i) = Some (Inr t')" and
    txs1: "recurring_transactions L1 = (recurring_transactions L)[i := t']"
    by auto
  from advance_next_date_Inr [OF adv] obtain d where
    d: "add_relativedelta (next_date (recurring_transactions L ! i))
          (frequency (recurring_transactions L ! i)) = Inr d" "date_le today d"
       "t' = (recurring_transactions L ! i)\<lparr>next_date := d\<rparr>"
    by blast
  from Cons.prems(2) have dj: "distinct js" and ni: "i \<notin> set js" by simp_all
  from Cons.prems(3) have il: "i < length (recurring_transactions L)"
    and jl: "\<forall>j \<in> set js. j < length (recurring_transactions L1)"
    by (simp_all add: txs1)
  have keep: "recurring_transactions L1 ! j = recurring_transactions L ! j" if "j \<in> set js" for j
  proof -
    from that ni have "j \<noteq> i" by blast
    then show ?thesis by (simp add: txs1)
  qed
  note R = record_each_Inr [OF rest dj]
  from R ni have "recurring_transactions L' ! i = recurring_transactions L1 ! i" by blast
  with il have first: "recurring_transactions L' ! i = t'" by (simp add: txs1)
  note IH = Cons.IH [OF rest dj jl]
  show ?case
  proof
    fix j assume "j \<in> set (i # js)"
    then consider "j = i" | "j \<in> set js" by auto
    then show "\<exists>d. add_relativedelta (next_date (recurring_transactions L ! j))
       (frequency (recurring_transactions L ! j)) = Inr d \<and> date_le today d \<and>
       recurring_transactions L' ! j = (recurring_transactions L ! j)\<lparr>next_date := d\<rparr>"
    proof cases
      case 1
      with d first show ?thesis by simp
    next
      case 2
      with IH obtain dj where
        "add_relativedelta (next_date (recurring_transactions L1 ! j))
           (frequency (recurring_transactions L1 ! j)) = Inr dj \<and> date_le today dj \<and>
         recurring_transactions L' ! j = (recurring_transactions L1 ! j)\<lparr>next_date := dj\<rparr>"
        by blast
      then show ?thesis unfolding keep [OF 2] by blast
    qed
  qed
qed

lemma set_due: "set (get_transactions_for_day L) =
    {j. j < length (recurring_transactions L) \<and> is_due L (recurring_transactions L ! j)}"
  by (auto simp: get_transactions_for_day_def)

lemma loop_body_transactions:
  assumes "loop_body today L = Some (Inr L')" "j < length (recurring_transactions L)"
  shows "is_due L (recurring_transactions L ! j) \<Longrightarrow>
           \<exists>d. add_relativedelta (next_date (recurring_transactions L ! j))
                  (frequency (recurring_transactions L ! j)) = Inr d \<and>
                date_le today d \<and>
                recurring_transactions L' ! j = (recurring_transactions L ! j)\<lparr>next_date := d\<rparr>"
    and "\<not> is_due L (recurring_transactions L ! j) \<Longrightarrow>
           recurring_transactions L' ! j = recurring_transactions L ! j"
proof -
  from loop_body_Inr [OF assms(1)] obtain L1 where
    r: "record_each today L (get_transactions_for_day L) = Some (Inr L1)" and
    a: "date_advance L1 = Inr L'" by blast
  from date_advance_Inr [OF a] have same: "recurring_transactions L' = recurring_transactions L1"
    by auto
  have inr: "\<forall>i \<in> set (get_transactions_for_day L). i < length (recurring_transactions L)"
    by (simp add: set_due)
  note A = record_each_advances [OF r distinct_due inr]
  note R = record_each_Inr [OF r distinct_due]
  {
    assume "is_due L (recurring_transactions L ! j)"
    with assms(2) have "j \<in> set (get_transactions_for_day L)" by (simp add: set_due)
    with A show "\<exists>d. add_relativedelta (next_date (recurring_transactions L ! j))
                  (frequency (recurring_transactions L ! j)) = Inr d \<and>
                date_le today d \<and>
                recurring_transactions L' ! j = (recurring_transactions L ! j)\<lparr>next_date := d\<rparr>"
      unfolding same by blast
  next
    assume "\<not> is_due L (recurring_transactions L ! j)"
    then have "j \<notin> set (get_transactions_for_day L)" by (simp add: set_due)
    with R show "recurring_transactions L' ! j = recurring_transactions L ! j"
      unfolding same by blast
  }
qed

lemma loop_body_ok:
  assumes "ledger_ok today L" "loop_body today L = Some (Inr L')"
  shows "ledger_ok today L'"
proof -
  let ?cur = "current_day L"
  from assms(1) have vc: "valid_date ?cur" and tc: "date_le today ?cur"
    and ok: "\<forall>t \<in> set (recurring_transactions L). transaction_ok ?cur t"
    by (simp_all add: ledger_ok_def)
  note day = loop_body_day [OF vc assms(2)]
  note nv = next_day_valid [OF vc day(1)]
  have len: "length (recurring_transactions L') = length (recurring_transactions L)"
    by (rule loop_body_log(5) [OF assms(2)])
  have "transaction_ok (current_day L') t'" if "t' \<in> set (recurring_transactions L')" for t'
  proof -
    from that obtain j where j: "j < length (recurring_transactions L)"
      and t': "t' = recurring_transactions L' ! j"
      using len by (auto simp: in_set_conv_nth)
    let ?t = "recurring_transactions L ! j"
    from ok j have tok: "is_step (frequency ?t)" "valid_date (next_date ?t)"
      "date_le ?cur (next_date ?t)"
      by (simp_all add: transaction_ok_def)
    show ?thesis
    proof (cases "is_due L ?t")
      case True
      from loop_body_transactions(1) [OF assms(2) j True] obtain d where
        d: "add_relativedelta (next_date ?t) (frequency ?t) = Inr d"
        and e: "recurring_transactions L' ! j = ?t\<lparr>next_date := d\<rparr>"
        by blast
      note sv = add_step_valid [OF tok(1,2) d]
      from True have "next_date ?t = ?cur" by (simp add: is_due_def)
      with sv(2) have "date_lt ?cur d" by simp
      from next_day_least [OF sv(1) this day(1)] sv(1) tok(1) show ?thesis
        by (simp add: t' e transaction_ok_def)
    next
      case False
      from loop_body_transactions(2) [OF assms(2) j False]
      have e: "recurring_transactions L' ! j = ?t" .
      from False have "?cur \<noteq> next_date ?t" by (auto simp: is_due_def)
      from date_le_neq_lt [OF tok(3) this] have "date_lt ?cur (next_date ?t)" .
      from next_day_least [OF tok(2) this day(1)] tok(1,2) show ?thesis
        by (simp add: t' e transaction_ok_def)
    qed
  qed
  moreover have "date_le today (current_day L')"
    by (rule date_lt_imp_le [OF date_le_lt_trans [OF tc nv(2)]])
  ultimately show ?thesis using nv(1) by (simp add: ledger_ok_def)
qed

lemma record_each_succeeds:
  "distinct js \<Longrightarrow>
   \<forall>j \<in> set js. j < length (recurring_transactions L) \<and>
     (\<exists>t'. advance_next_date today (recurring_transactions L ! j) = Some (Inr t')) \<Longrightarrow>
   \<exists>L1. record_each today L js = Some (Inr L1)"
proof (induction js arbitrary: L)
  case Nil
  then show ?case by simp
next
  case (Cons i js)
  from Cons.prems(2) obtain t' where
    adv: "advance_next_date today (recurring_transactions L ! i) = Some (Inr t')" by auto
  then obtain L1 where r: "record_transaction today L i = Some (Inr L1)"
    by (simp add: record_transaction_def Let_def)
  from record_transaction_Inr [OF r] obtain t'' where
    txs1: "recurring_transactions L1 = (recurring_transactions L)[i := t'']" by auto
  from Cons.prems(1) have dj: "distinct js" and ni: "i \<notin> set js" by simp_all
  have "\<forall>j \<in> set js. j < length (recurring_transactions L1) \<and>
     (\<exists>t'. advance_next_date today (recurring_transactions L1 ! j) = Some (Inr t'))"
  proof
    fix j assume j: "j \<in> set js"
    with ni have "j \<noteq> i" by blast
    with Cons.prems(2) j show "j < length (recurring_transactions L1) \<and>
     (\<exists>t'. advance_next_date today (recurring_transactions L1 ! j) = Some (Inr t'))"
      by (simp add: txs1)
  qed
  from Cons.IH [OF dj this] r show ?case by simp
qed

lemma loop_body_succeeds:
  assumes "ledger_ok today L" "year (current_day L) < MAXYEAR"
  shows "\<exists>L'. loop_body today L = Some (Inr L')"
proof -
  let ?cur = "current_day L"
  from assms(1) have vc: "valid_date ?cur" and tc: "date_le today ?cur"
    and ok: "\<forall>t \<in> set (recurring_transactions L). transaction_ok ?cur t"
    by (simp_all add: ledger_ok_def)
  have "\<forall>j \<in> set (get_transactions_for_day L). j < length (recurring_transactions L) \<and>
     (\<exists>t'. advance_next_date today (recurring_transactions L ! j) = Some (Inr t'))"
  proof
    fix j assume "j \<in> set (get_transactions_for_day L)"
    then have j: "j < length (recurring_transactions L)"
      and due: "is_due L (recurring_transactions L ! j)"
      by (simp_all add: set_due)
    let ?t = "recurring_transactions L ! j"
    from ok j have tok: "is_step (frequency ?t)" "valid_date (next_date ?t)"
      by (simp_all add: transaction_ok_def)
    from due have nd: "next_date ?t = ?cur" by (simp add: is_due_def)
    with assms(2) have "year (next_date ?t) < MAXYEAR" by simp
    from add_step_exists [OF tok this] obtain d where
      d: "add_relativedelta (next_date ?t) (frequency ?t) = Inr d" by blast
    from add_step_valid(2) [OF tok d] nd have "date_lt ?cur d" by simp
    with tc have "date_le today d" by (blast intro: date_lt_imp_le date_le_lt_trans)
    with d have "advance_next_date today ?t = Some (Inr (?t\<lparr>next_date := d\<rparr>))"
      by (simp add: advance_next_date_def set_next_date_def)
    with j show "j < length (recurring_transactions L) \<and>
     (\<exists>t'. advance_next_date today ?t = Some (Inr t'))" by blast
  qed
  from record_each_succeeds [OF distinct_due this] obtain L1 where
    r: "record_each today L (get_transactions_for_day L) = Some (Inr L1)" by blast
  from record_each_Inr [OF r distinct_due] have c: "current_day L1 = ?cur" by simp
  have "early 0 ?cur" using vc assms(2) by (simp add: early_def)
  from next_day_early [OF this] obtain d where "next_day ?cur = Inr d" by auto
  with date_advance_next_day [of L1] vc c have "date_advance L1 = Inr (L1\<lparr>current_day := d\<rparr>)"
    by simp
  with r show ?thesis by (simp add: loop_body_def)
qed

subsection \<open>Termination of the simulation\<close>

lemma date_le_year: "date_le a b \<Longrightarrow> year a \<le> year b"
  unfolding date_le_def date_lt_def by linarith

lemma days_later_1: "days_later 1 d = next_day d"
  by (cases "next_day d") simp_all

lemma iterations_ok:
  assumes "valid_date today" "Ledger_init F today csv n sb = Some (Inr L0)"
    "iterations k today L0 = Some (Inr Lk)"
  shows "ledger_ok today Lk"
proof (rule iterations_invariant [where I = "ledger_ok today", OF _ _ assms(3)])
  show "ledger_ok today L0" by (rule Ledger_init_ok [OF assms(1,2)])
  show "\<And>L L1. ledger_ok today L \<Longrightarrow> loop_body today L = Some (Inr L1) \<Longrightarrow> ledger_ok today L1"
    by (rule loop_body_ok)
qed

lemma simulation_days:
  assumes "valid_date today" "0 \<le> n" "Ledger_init F today csv n sb = Some (Inr L0)"
  shows "days_later (nat n) today = Inr (end_day L0)"
    and "iterations k today L0 = Some (Inr Lk) \<Longrightarrow>
         days_later k today = Inr (current_day Lk) \<and> end_day Lk = end_day L0 \<and>
         (is_active Lk \<longleftrightarrow> k \<le> nat n)"
proof -
  from Ledger_init_Inr [OF assms(3)] obtain ed where
    ed: "add_relativedelta today \<lparr>rd_years = 0, rd_months = 0, rd_days = n\<rparr> = Inr ed"
    and L0: "current_day L0 = today" "end_day L0 = ed"
    by auto
  from add_days_step [OF assms(1), of "nat n"] assms(2) ed
  show E: "days_later (nat n) today = Inr (end_day L0)" by (simp add: L0)
  assume it: "iterations k today L0 = Some (Inr Lk)"
  from iterations_day [of L0 k today Lk] assms(1) it
  have D: "days_later k today = Inr (current_day Lk)" "end_day Lk = end_day L0"
    by (simp_all add: L0)
  from days_later_order [OF assms(1) E D(1)]
  have "date_lt (end_day L0) (current_day Lk) \<longleftrightarrow> nat n < k" .
  then have "is_active Lk \<longleftrightarrow> k \<le> nat n"
    by (auto simp: is_active_def date_le_def D(2))
  with D show "days_later k today = Inr (current_day Lk) \<and> end_day Lk = end_day L0 \<and>
         (is_active Lk \<longleftrightarrow> k \<le> nat n)" by simp
qed

lemma simulation_run_loop:
  assumes "valid_date today" "0 \<le> n" "Ledger_init F today csv n sb = Some (Inr L0)"
  shows "run_loop today L0 = iterations (nat n + 1) today L0"
proof (rule run_loop_iterations)
  show "\<forall>k<nat n + 1. \<forall>Lk. iterations k today L0 = Some (Inr Lk) \<longrightarrow> is_active Lk"
  proof (intro allI impI)
    fix k Lk assume "k < nat n + 1" "iterations k today L0 = Some (Inr Lk)"
    with simulation_days(2) [OF assms, of k Lk] show "is_active Lk" by simp
  qed
  show "\<forall>Ln. iterations (nat n + 1) today L0 = Some (Inr Ln) \<longrightarrow> \<not> is_active Ln"
  proof (intro allI impI)
    fix Ln assume "iterations (nat n + 1) today L0 = Some (Inr Ln)"
    from simulation_days(2) [OF assms this] show "\<not> is_active Ln" by simp
  qed
qed

lemma simulation_completes:
  assumes "valid_date today" "0 \<le> n" "Ledger_init F today csv n sb = Some (Inr L0)"
    "year (end_day L0) < MAXYEAR"
  shows "k \<le> nat n + 1 \<Longrightarrow> \<exists>Lk. iterations k today L0 = Some (Inr Lk)"
proof (induction k)
  case 0
  then show ?case by simp
next
  case (Suc k)
  then obtain Lk where it: "iterations k today L0 = Some (Inr Lk)" by auto
  from simulation_days(2) [OF assms(1-3) it] Suc.prems
  have "is_active Lk" "end_day Lk = end_day L0" by simp_all
  then have "year (current_day Lk) \<le> year (end_day L0)"
    using date_le_year [of "current_day Lk" "end_day Lk"] by (simp add: is_active_def)
  with assms(4) have y: "year (current_day Lk) < MAXYEAR" by simp
  from loop_body_succeeds [OF iterations_ok [OF assms(1,3) it] y] obtain L' where
    "loop_body today Lk = Some (Inr L')" by blast
  with iterations_Suc_end [OF it] show ?case by simp
qed

text \<open>
  Claim C4. For a horizon of \<open>n > 0\<close> days and a ledger that \<open>Ledger.__init__\<close> has built,
  the loop of \<open>run_loop\<close> returns, and it is exactly \<open>n + 1\<close> iterations of its body, one
  after the other (an exception raised inside an iteration ends the run, as in Python).
  The end day is \<open>n\<close> days after today. After any number \<open>k\<close> of completed iterations the
  current day is \<open>k\<close> days after today, whatever was due, and the loop condition holds if
  and only if \<open>k \<le> n\<close>: the loop never leaves earlier, it runs on the end day itself, and
  the iteration of the end day posts the transactions due on that day. When the end day
  lies before the last year of the calendar no exception arises: the loop ends normally,
  on the day after the end day.
\<close>

theorem run_loop_terminates:
  assumes "valid_date today" "0 < n" "Ledger_init F today csv n sb = Some (Inr L0)"
  shows "(\<exists>r. run_loop today L0 = Some r) \<and>
         run_loop today L0 = iterations (nat n + 1) today L0 \<and>
         days_later (nat n) today = Inr (end_day L0) \<and>
         (\<forall>k Lk. iterations k today L0 = Some (Inr Lk) \<longrightarrow>
            days_later k today = Inr (current_day Lk) \<and> (is_active Lk \<longleftrightarrow> k \<le> nat n)) \<and>
         (\<forall>Ln L'. iterations (nat n) today L0 = Some (Inr Ln) \<and>
              loop_body today Ln = Some (Inr L') \<longrightarrow>
            current_day Ln = end_day L0 \<and> is_active Ln \<and>
            transaction_log L' = transaction_log Ln @
              post_entries (end_day L0) (current_balance Ln)
                (filter (is_due Ln) (recurring_transactions Ln))) \<and>
         (year (end_day L0) < MAXYEAR \<longrightarrow>
            (\<exists>L'. run_loop today L0 = Some (Inr L') \<and>
                  next_day (end_day L0) = Inr (current_day L')))"
proof -
  from assms(2) have n0: "0 \<le> n" by simp
  note days = simulation_days [OF assms(1) n0 assms(3)]
  note run = simulation_run_loop [OF assms(1) n0 assms(3)]
  have a: "\<exists>r. run_loop today L0 = Some r"
    unfolding run by (rule iterations_total)
  have c: "\<forall>k Lk. iterations k today L0 = Some (Inr Lk) \<longrightarrow>
            days_later k today = Inr (current_day Lk) \<and> (is_active Lk \<longleftrightarrow> k \<le> nat n)"
    using days(2) by blast
  have d: "\<forall>Ln L'. iterations (nat n) today L0 = Some (Inr Ln) \<and>
              loop_body today Ln = Some (Inr L') \<longrightarrow>
            current_day Ln = end_day L0 \<and> is_active Ln \<and>
            transaction_log L' = transaction_log Ln @
              post_entries (end_day L0) (current_balance Ln)
                (filter (is_due Ln) (recurring_transactions Ln))"
  proof (intro allI impI, elim conjE)
    fix Ln L'
    assume it: "iterations (nat n) today L0 = Some (Inr Ln)"
      and b: "loop_body today Ln = Some (Inr L')"
    from days(2) [OF it] days(1) have cur: "current_day Ln = end_day L0" and "is_active Ln"
      by simp_all
    with loop_body_log(1) [OF b]
    show "current_day Ln = end_day L0 \<and> is_active Ln \<and>
            transaction_log L' = transaction_log Ln @
              post_entries (end_day L0) (current_balance Ln)
                (filter (is_due Ln) (recurring_transactions Ln))"
      by simp
  qed
  have e: "\<exists>L'. run_loop today L0 = Some (Inr L') \<and>
                  next_day (end_day L0) = Inr (current_day L')"
    if y: "year (end_day L0) < MAXYEAR"
  proof -
    from simulation_completes [OF assms(1) n0 assms(3) y, of "nat n + 1"] obtain L' where
      it: "iterations (nat n + 1) today L0 = Some (Inr L')" by auto
    from days(2) [OF it] have x: "days_later (nat n + 1) today = Inr (current_day L')" by simp
    have eq: "days_later (nat n + 1) today = days_later 1 (end_day L0)"
      by (simp only: days_later_add [of "nat n" 1 today] days(1) sum.case)
    from x have "days_later 1 (end_day L0) = Inr (current_day L')" unfolding eq .
    then have "next_day (end_day L0) = Inr (current_day L')"
      by (simp only: days_later_1)
    with it run show ?thesis by simp
  qed
  from a run days(1) c d e show ?thesis by blast
qed

text \<open>
  On 3 November 2026 with a horizon of two days, the loop runs three iterations, for the
  3rd, 4th and 5th; the rent due on the 5th, the end day, is posted, and the loop ends on
  the 6th.
\<close>

theorem run_loop_terminates_witness:
  "valid_date \<lparr>year = 2026, month = 11, day = 3\<rparr> \<and> (0 :: int) < 2 \<and>
   Ledger_init whole_units \<lparr>year = 2026, month = 11, day = 3\<rparr> rent_csv 2 1000
     = Some (Inr \<lparr>days = 2, starting_balance = 1000,
          current_day = \<lparr>year = 2026, month = 11, day = 3\<rparr>,
          end_day = \<lparr>year = 2026, month = 11, day = 5\<rparr>,
          recurring_transactions =
            [\<lparr>name = Some ''Rent'', sign = CHR ''-'', transaction_type = ''expense'',
              amount = - 50, frequency = \<lparr>rd_years = 0, rd_months = 0, rd_days = 7\<rparr>,
              next_date = \<lparr>year = 2026, month = 11, day = 5\<rparr>\<rparr>],
          transaction_log =
            [\<lparr>e_date = \<lparr>year = 2026, month = 11, day = 3\<rparr>,
              e_name = Some ''Opening Balance'', e_amount = 1000, e_balance = 1000\<rparr>],
          current_balance = 1000\<rparr>) \<and>
   run_loop \<lparr>year = 2026, month = 11, day = 3\<rparr>
       \<lparr>days = 2, starting_balance = (1000 :: int),
          current_day = \<lparr>year = 2026, month = 11, day = 3\<rparr>,
          end_day = \<lparr>year = 2026, month = 11, day = 5\<rparr>,
          recurring_transactions =
            [\<lparr>name = Some ''Rent'', sign = CHR ''-'', transaction_type = ''expense'',
              amount = - 50, frequency = \<lparr>rd_years = 0, rd_months = 0, rd_days = 7\<rparr>,
              next_date = \<lparr>year = 2026, month = 11, day = 5\<rparr>\<rparr>],
          transaction_log =
            [\<lparr>e_date = \<lparr>year = 2026, month = 11, day = 3\<rparr>,
              e_name = Some ''Opening Balance'', e_amount = 1000, e_balance = 1000\<rparr>],
          current_balance = 1000\<rparr>
     = Some (Inr \<lparr>days = 2, starting_balance = 1000,
          current_day = \<lparr>year = 2026, month = 11, day = 6\<rparr>,
          end_day = \<lparr>year = 2026, month = 11, day = 5\<rparr>,
          recurring_transactions =
            [\<lparr>name = Some ''Rent'', sign = CHR ''-'', transaction_type = ''expense'',
              amount = - 50, frequency = \<lparr>rd_years = 0, rd_months = 0, rd_days = 7\<rparr>,
              next_date = \<lparr>year = 2026, month = 11, day = 12\<rparr>\<rparr>],
          transaction_log =
            [\<lparr>e_date = \<lparr>year = 2026, month = 11, day = 3\<rparr>,
              e_name = Some ''Opening Balance'', e_amount = 1000, e_balance = 1000\<rparr>,
             \<lparr>e_date = \<lparr>year = 2026, month = 11, day = 5\<rparr>,
              e_name = Some ''Rent'', e_amount = - 50, e_balance = 950\<rparr>],
          current_balance = 950\<rparr>)"
  (is "?v \<and> ?n \<and> Ledger_init _ ?T _ _ _ = Some (Inr ?L0) \<and> run_loop _ _ = Some (Inr ?L1)")
proof -
  have v: ?v by (simp add: valid_date_def days_in_month_def MINYEAR_def MAXYEAR_def)
  have n: ?n by simp
  have init: "Ledger_init whole_units ?T rent_csv 2 1000 = Some (Inr ?L0)" by code_simp
  have it: "iterations 3 ?T ?L0 = Some (Inr ?L1)" by code_simp
  from run_loop_terminates [OF v n init]
  have "run_loop ?T ?L0 = iterations (nat 2 + 1) ?T ?L0" by blast
  moreover have "nat 2 + 1 = (3 :: nat)" by simp
  ultimately have "run_loop ?T ?L0 = Some (Inr ?L1)" by (simp only: it)
  with v n init show ?thesis by blast
qed

subsection \<open>No due date is skipped\<close>

lemma iterations_from_today:
  assumes "valid_date today" "Ledger_init F today csv n sb = Some (Inr L0)"
    "iterations k today L0 = Some (Inr Lk)"
  shows "days_later k today = Inr (current_day Lk)"
proof -
  from Ledger_init_Inr [OF assms(2)] have "current_day L0 = today" by auto
  with iterations_day [of L0 k today Lk] assms(1,3) show ?thesis by simp
qed

lemma date_lt_le_trans: "date_lt a b \<Longrightarrow> date_le b c \<Longrightarrow> date_lt a c"
  unfolding date_le_def date_lt_def by linarith

lemma iterations_add:
  "iterations (a + b) today L =
     (case iterations a today L of
        None \<Rightarrow> None
      | Some (Inl e) \<Rightarrow> Some (Inl e)
      | Some (Inr L1) \<Rightarrow> iterations b today L1)"
proof (induction a arbitrary: L)
  case 0
  then show ?case by simp
next
  case (Suc a)
  show ?case
  proof (cases "loop_body today L")
    case None
    then show ?thesis by simp
  next
    case (Some r)
    then show ?thesis by (cases r) (simp_all add: Suc.IH)
  qed
qed

lemma iterations_between:
  assumes "iterations k today L0 = Some (Inr Lk)" "iterations m today L0 = Some (Inr Lm)" "k \<le> m"
  shows "iterations (m - k) today Lk = Some (Inr Lm)"
proof -
  from assms(3) have "m = k + (m - k)" by simp
  then have "iterations m today L0 = iterations (k + (m - k)) today L0" by simp
  also have "\<dots> = iterations (m - k) today Lk"
    by (simp only: iterations_add [of k "m - k" today L0] assms(1) option.case sum.case)
  finally show ?thesis using assms(2) by simp
qed

lemma post_entries_keys:
  "map (\<lambda>e. (e_date e, e_name e, e_amount e)) (post_entries cur bal ts)
     = map (\<lambda>t. (cur, name t, amount t)) ts"
  by (induction ts arbitrary: bal) simp_all

lemma post_entries_member:
  assumes "t \<in> set ts"
  shows "\<exists>e \<in> set (post_entries cur bal ts).
           e_date e = cur \<and> e_name e = name t \<and> e_amount e = amount t"
proof -
  from assms have "(cur, name t, amount t) \<in> set (map (\<lambda>t. (cur, name t, amount t)) ts)"
    by (simp add: image_iff) blast
  then have "(cur, name t, amount t)
      \<in> set (map (\<lambda>e. (e_date e, e_name e, e_amount e)) (post_entries cur bal ts))"
    by (simp only: post_entries_keys)
  then show ?thesis by (auto simp: image_iff)
qed

text \<open>A transaction whose next date is not yet passed is left alone until that date.\<close>

lemma waiting_transaction_unchanged:
  "valid_date (current_day L) \<Longrightarrow> iterations i today L = Some (Inr Lm) \<Longrightarrow>
   j < length (recurring_transactions L) \<Longrightarrow>
   date_le (current_day Lm) (next_date (recurring_transactions L ! j)) \<Longrightarrow>
   recurring_transactions Lm ! j = recurring_transactions L ! j"
proof (induction i arbitrary: L)
  case 0
  then show ?case by simp
next
  case (Suc i)
  from Suc.prems(2) obtain L1 where b: "loop_body today L = Some (Inr L1)"
    and r: "iterations i today L1 = Some (Inr Lm)"
    by (auto split: option.splits sum.splits)
  note day = loop_body_day [OF Suc.prems(1) b]
  note v1 = next_day_valid [OF Suc.prems(1) day(1)]
  from iterations_day [OF v1(1) r] have dl: "days_later i (current_day L1) = Inr (current_day Lm)"
    by simp
  have le1: "date_le (current_day L1) (current_day Lm)"
  proof (cases i)
    case 0
    with dl show ?thesis by (simp add: date_le_refl)
  next
    case (Suc i')
    with days_later_valid [OF v1(1) dl] show ?thesis by (simp add: date_lt_imp_le)
  qed
  let ?t = "recurring_transactions L ! j"
  have "date_lt (current_day L) (next_date ?t)"
    by (rule date_lt_le_trans [OF date_lt_le_trans [OF v1(2) le1] Suc.prems(4)])
  then have "next_date ?t \<noteq> current_day L" by (auto simp: date_lt_irrefl)
  then have nd: "\<not> is_due L ?t" by (simp add: is_due_def)
  from loop_body_transactions(2) [OF b Suc.prems(3) nd]
  have same: "recurring_transactions L1 ! j = ?t" .
  have len: "j < length (recurring_transactions L1)"
    using loop_body_log(5) [OF b] Suc.prems(3) by simp
  from Suc.IH [OF v1(1) r len] Suc.prems(4) same show ?case by simp
qed

lemma loop_body_posts_due:
  assumes "loop_body today L = Some (Inr L')" "j < length (recurring_transactions L)"
    "is_due L (recurring_transactions L ! j)"
  shows "\<exists>e \<in> set (drop (length (transaction_log L)) (transaction_log L')).
           e_date e = current_day L \<and> e_name e = name (recurring_transactions L ! j) \<and>
           e_amount e = amount (recurring_transactions L ! j)"
proof -
  from assms(2,3) have "recurring_transactions L ! j
      \<in> set (filter (is_due L) (recurring_transactions L))" by simp
  from post_entries_member [OF this]
  show ?thesis by (simp add: loop_body_log(1) [OF assms(1)])
qed


lemma iterations_length:
  "iterations i today L = Some (Inr M) \<Longrightarrow>
   length (recurring_transactions M) = length (recurring_transactions L)"
  by (rule iterations_invariant
      [where I = "\<lambda>M. length (recurring_transactions M) = length (recurring_transactions L)"])
    (simp_all add: loop_body_log(5))

text \<open>
  Claim C10. In a ledger that \<open>Ledger.__init__\<close> has built, after any number \<open>k\<close> of
  iterations of the loop: every transaction's next date is on or after the current day,
  and the current day is \<open>k\<close> days after today. The next iteration moves the current day
  to the following day and appends to the log the entries of the transactions due on the
  current day, adding their amounts to the balance; a transaction that is due (its next
  date is the current day) has its entry, dated the current day, among the entries
  appended, and gets as its next date the date one recurrence step later, which is after
  the current day; a transaction that is not due is left as it is, its next date being
  after the current day. \<open>record_transaction\<close> itself appends the entry of the transaction
  and moves its next date by one step, in one call. And no due date is passed without its
  posting: when a later iteration starts on the day that is a transaction's next date
  now, the transaction is still as it is now, it is due, and that iteration appends its
  entry for that day and moves its next date one step beyond.
\<close>

theorem no_skip_invariant:
  assumes "valid_date today" "Ledger_init F today csv n sb = Some (Inr L0)"
    "iterations k today L0 = Some (Inr Lk)"
  shows "(\<forall>t \<in> set (recurring_transactions Lk). date_le (current_day Lk) (next_date t)) \<and>
         days_later k today = Inr (current_day Lk) \<and>
         (\<forall>L'. loop_body today Lk = Some (Inr L') \<longrightarrow>
            next_day (current_day Lk) = Inr (current_day L') \<and>
            transaction_log L' = transaction_log Lk @
              post_entries (current_day Lk) (current_balance Lk)
                (filter (is_due Lk) (recurring_transactions Lk)) \<and>
            current_balance L' = foldl (+) (current_balance Lk)
              (map amount (filter (is_due Lk) (recurring_transactions Lk))) \<and>
            (\<forall>j < length (recurring_transactions Lk).
               if is_due Lk (recurring_transactions Lk ! j)
               then (\<exists>e \<in> set (drop (length (transaction_log Lk)) (transaction_log L')).
                       e_date e = current_day Lk \<and>
                       e_name e = name (recurring_transactions Lk ! j) \<and>
                       e_amount e = amount (recurring_transactions Lk ! j)) \<and>
                    (\<exists>d. add_relativedelta (next_date (recurring_transactions Lk ! j))
                           (frequency (recurring_transactions Lk ! j)) = Inr d \<and>
                         date_lt (current_day Lk) d \<and>
                         recurring_transactions L' ! j
                           = (recurring_transactions Lk ! j)\<lparr>next_date := d\<rparr>)
               else recurring_transactions L' ! j = recurring_transactions Lk ! j \<and>
                    date_lt (current_day Lk) (next_date (recurring_transactions Lk ! j)))) \<and>
         (\<forall>i L1. record_transaction today Lk i = Some (Inr L1) \<longrightarrow>
            transaction_log L1 = transaction_log Lk @
              [\<lparr>e_date = current_day Lk, e_name = name (recurring_transactions Lk ! i),
                e_amount = amount (recurring_transactions Lk ! i),
                e_balance = current_balance Lk + amount (recurring_transactions Lk ! i)\<rparr>] \<and>
            current_balance L1 = current_balance Lk + amount (recurring_transactions Lk ! i) \<and>
            (\<exists>d. add_relativedelta (next_date (recurring_transactions Lk ! i))
                   (frequency (recurring_transactions Lk ! i)) = Inr d \<and>
                 recurring_transactions L1
                   = (recurring_transactions Lk)
                       [i := (recurring_transactions Lk ! i)\<lparr>next_date := d\<rparr>])) \<and>
         (\<forall>m Lm j. k \<le> m \<and> iterations m today L0 = Some (Inr Lm) \<and>
              j < length (recurring_transactions Lk) \<and>
              current_day Lm = next_date (recurring_transactions Lk ! j) \<longrightarrow>
            recurring_transactions Lm ! j = recurring_transactions Lk ! j \<and>
            is_due Lm (recurring_transactions Lm ! j) \<and>
            (\<forall>L'. loop_body today Lm = Some (Inr L') \<longrightarrow>
               (\<exists>e \<in> set (drop (length (transaction_log Lm)) (transaction_log L')).
                  e_date e = next_date (recurring_transactions Lk ! j) \<and>
                  e_name e = name (recurring_transactions Lk ! j) \<and>
                  e_amount e = amount (recurring_transactions Lk ! j)) \<and>
               (\<exists>d. add_relativedelta (next_date (recurring_transactions Lk ! j))
                      (frequency (recurring_transactions Lk ! j)) = Inr d \<and>
                    date_lt (next_date (recurring_transactions Lk ! j)) d \<and>
                    recurring_transactions L' ! j
                      = (recurring_transactions Lk ! j)\<lparr>next_date := d\<rparr>)))"
proof -
  note ok = iterations_ok [OF assms]
  then have vc: "valid_date (current_day Lk)"
    and tok: "\<forall>t \<in> set (recurring_transactions Lk). transaction_ok (current_day Lk) t"
    by (simp_all add: ledger_ok_def)
  have a: "\<forall>t \<in> set (recurring_transactions Lk). date_le (current_day Lk) (next_date t)"
    using tok by (simp add: transaction_ok_def)
  have b: "days_later k today = Inr (current_day Lk)"
    by (rule iterations_from_today [OF assms])
  have due: "(\<exists>e \<in> set (drop (length (transaction_log M)) (transaction_log L')).
                e_date e = current_day M \<and> e_name e = name (recurring_transactions M ! j) \<and>
                e_amount e = amount (recurring_transactions M ! j)) \<and>
             (\<exists>d. add_relativedelta (next_date (recurring_transactions M ! j))
                    (frequency (recurring_transactions M ! j)) = Inr d \<and>
                  date_lt (current_day M) d \<and>
                  recurring_transactions L' ! j = (recurring_transactions M ! j)\<lparr>next_date := d\<rparr>)"
    if body: "loop_body today M = Some (Inr L')" and j: "j < length (recurring_transactions M)"
      and isdue: "is_due M (recurring_transactions M ! j)"
      and t: "is_step (frequency (recurring_transactions M ! j))"
        "valid_date (next_date (recurring_transactions M ! j))"
    for M L' :: "'a Ledger" and j
  proof -
    let ?t = "recurring_transactions M ! j"
    from loop_body_transactions(1) [OF body j isdue] obtain d where
      d: "add_relativedelta (next_date ?t) (frequency ?t) = Inr d"
      and e: "recurring_transactions L' ! j = ?t\<lparr>next_date := d\<rparr>"
      by blast
    from add_step_valid(2) [OF t d] isdue have "date_lt (current_day M) d"
      by (simp add: is_due_def)
    with d e loop_body_posts_due [OF body j isdue] show ?thesis by blast
  qed
  have c: "next_day (current_day Lk) = Inr (current_day L') \<and>
            transaction_log L' = transaction_log Lk @
              post_entries (current_day Lk) (current_balance Lk)
                (filter (is_due Lk) (recurring_transactions Lk)) \<and>
            current_balance L' = foldl (+) (current_balance Lk)
              (map amount (filter (is_due Lk) (recurring_transactions Lk))) \<and>
            (\<forall>j < length (recurring_transactions Lk).
               if is_due Lk (recurring_transactions Lk ! j)
               then (\<exists>e \<in> set (drop (length (transaction_log Lk)) (transaction_log L')).
                       e_date e = current_day Lk \<and>
                       e_name e = name (recurring_transactions Lk ! j) \<and>
                       e_amount e = amount (recurring_transactions Lk ! j)) \<and>
                    (\<exists>d. add_relativedelta (next_date (recurring_transactions Lk ! j))
                           (frequency (recurring_transactions Lk ! j)) = Inr d \<and>
                         date_lt (current_day Lk) d \<and>
                         recurring_transactions L' ! j
                           = (recurring_transactions Lk ! j)\<lparr>next_date := d\<rparr>)
               else recurring_transactions L' ! j = recurring_transactions Lk ! j \<and>
                    date_lt (current_day Lk) (next_date (recurring_transactions Lk ! j)))"
    if body: "loop_body today Lk = Some (Inr L')" for L'
  proof -
    note day = loop_body_day(1) [OF vc body]
    have each: "if is_due Lk (recurring_transactions Lk ! j)
               then (\<exists>e \<in> set (drop (length (transaction_log Lk)) (transaction_log L')).
                       e_date e = current_day Lk \<and>
                       e_name e = name (recurring_transactions Lk ! j) \<and>
                       e_amount e = amount (recurring_transactions Lk ! j)) \<and>
                    (\<exists>d. add_relativedelta (next_date (recurring_transactions Lk ! j))
                           (frequency (recurring_transactions Lk ! j)) = Inr d \<and>
                         date_lt (current_day Lk) d \<and>
                         recurring_transactions L' ! j
                           = (recurring_transactions Lk ! j)\<lparr>next_date := d\<rparr>)
               else recurring_transactions L' ! j = recurring_transactions Lk ! j \<and>
                    date_lt (current_day Lk) (next_date (recurring_transactions Lk ! j))"
      if j: "j < length (recurring_transactions Lk)" for j
    proof -
      let ?t = "recurring_transactions Lk ! j"
      from tok j have t: "is_step (frequency ?t)" "valid_date (next_date ?t)"
        "date_le (current_day Lk) (next_date ?t)"
        by (simp_all add: transaction_ok_def)
      show ?thesis
      proof (cases "is_due Lk ?t")
        case True
        from due [OF body j True t(1,2)] True show ?thesis by simp
      next
        case False
        then have "current_day Lk \<noteq> next_date ?t" by (auto simp: is_due_def)
        from date_le_neq_lt [OF t(3) this] loop_body_transactions(2) [OF body j False] False
        show ?thesis by simp
      qed
    qed
    from day loop_body_log(1,2) [OF body] each show ?thesis by blast
  qed
  have d: "transaction_log L1 = transaction_log Lk @
              [\<lparr>e_date = current_day Lk, e_name = name (recurring_transactions Lk ! i),
                e_amount = amount (recurring_transactions Lk ! i),
                e_balance = current_balance Lk + amount (recurring_transactions Lk ! i)\<rparr>] \<and>
            current_balance L1 = current_balance Lk + amount (recurring_transactions Lk ! i) \<and>
            (\<exists>d. add_relativedelta (next_date (recurring_transactions Lk ! i))
                   (frequency (recurring_transactions Lk ! i)) = Inr d \<and>
                 recurring_transactions L1
                   = (recurring_transactions Lk)
                       [i := (recurring_transactions Lk ! i)\<lparr>next_date := d\<rparr>])"
    if r: "record_transaction today Lk i = Some (Inr L1)" for i L1
  proof -
    let ?t = "recurring_transactions Lk ! i"
    from record_transaction_Inr [OF r] obtain t' where
      adv: "advance_next_date today ?t = Some (Inr t')" and
      L1: "L1 = Lk\<lparr>current_balance := current_balance Lk + amount ?t,
           transaction_log := transaction_log Lk @
             [\<lparr>e_date = current_day Lk, e_name = name ?t, e_amount = amount ?t,
               e_balance = current_balance Lk + amount ?t\<rparr>],
           recurring_transactions := (recurring_transactions Lk)[i := t']\<rparr>"
      by blast
    from advance_next_date_Inr [OF adv] obtain dd where
      "add_relativedelta (next_date ?t) (frequency ?t) = Inr dd" "t' = ?t\<lparr>next_date := dd\<rparr>"
      by blast
    then show ?thesis by (simp add: L1)
  qed
  have e: "recurring_transactions Lm ! j = recurring_transactions Lk ! j \<and>
            is_due Lm (recurring_transactions Lm ! j) \<and>
            (\<forall>L'. loop_body today Lm = Some (Inr L') \<longrightarrow>
               (\<exists>e \<in> set (drop (length (transaction_log Lm)) (transaction_log L')).
                  e_date e = next_date (recurring_transactions Lk ! j) \<and>
                  e_name e = name (recurring_transactions Lk ! j) \<and>
                  e_amount e = amount (recurring_transactions Lk ! j)) \<and>
               (\<exists>d. add_relativedelta (next_date (recurring_transactions Lk ! j))
                      (frequency (recurring_transactions Lk ! j)) = Inr d \<and>
                    date_lt (next_date (recurring_transactions Lk ! j)) d \<and>
                    recurring_transactions L' ! j
                      = (recurring_transactions Lk ! j)\<lparr>next_date := d\<rparr>))"
    if km: "k \<le> m" and itm: "iterations m today L0 = Some (Inr Lm)"
      and j: "j < length (recurring_transactions Lk)"
      and reach: "current_day Lm = next_date (recurring_transactions Lk ! j)"
    for m Lm j
  proof -
    let ?t = "recurring_transactions Lk ! j"
    from tok j have t: "is_step (frequency ?t)" "valid_date (next_date ?t)"
      by (simp_all add: transaction_ok_def)
    note btw = iterations_between [OF assms(3) itm km]
    have "date_le (current_day Lm) (next_date ?t)" by (simp add: reach date_le_refl)
    from waiting_transaction_unchanged [OF vc btw j this]
    have same: "recurring_transactions Lm ! j = ?t" .
    have isdue: "is_due Lm (recurring_transactions Lm ! j)"
      by (simp add: same is_due_def reach)
    have jm: "j < length (recurring_transactions Lm)"
      using iterations_length [OF btw] j by simp
    have "(\<exists>e \<in> set (drop (length (transaction_log Lm)) (transaction_log L')).
                  e_date e = next_date ?t \<and> e_name e = name ?t \<and> e_amount e = amount ?t) \<and>
               (\<exists>d. add_relativedelta (next_date ?t) (frequency ?t) = Inr d \<and>
                    date_lt (next_date ?t) d \<and>
                    recurring_transactions L' ! j = ?t\<lparr>next_date := d\<rparr>)"
      if body: "loop_body today Lm = Some (Inr L')" for L'
      using due [OF body jm isdue] t unfolding same reach by blast
    with same isdue show ?thesis by blast
  qed
  from a b c d e show ?thesis by blast
qed


text \<open>
  The rent of the example is due on 5 November 2026. The iteration that starts on that
  day, the third, finds it unchanged and due, appends its entry of -50 for that day and
  moves its next date to 12 November.
\<close>

theorem no_skip_invariant_witness:
  "valid_date \<lparr>year = 2026, month = 11, day = 3\<rparr> \<and>
   Ledger_init whole_units \<lparr>year = 2026, month = 11, day = 3\<rparr> rent_csv 2 1000
     = Some (Inr \<lparr>days = 2, starting_balance = 1000,
          current_day = \<lparr>year = 2026, month = 11, day = 3\<rparr>,
          end_day = \<lparr>year = 2026, month = 11, day = 5\<rparr>,
          recurring_transactions =
            [\<lparr>name = Some ''Rent'', sign = CHR ''-'', transaction_type = ''expense'',
              amount = - 50, frequency = \<lparr>rd_years = 0, rd_months = 0, rd_days = 7\<rparr>,
              next_date = \<lparr>year = 2026, month = 11, day = 5\<rparr>\<rparr>],
          transaction_log =
            [\<lparr>e_date = \<lparr>year = 2026, month = 11, day = 3\<rparr>,
              e_name = Some ''Opening Balance'', e_amount = 1000, e_balance = 1000\<rparr>],
          current_balance = 1000\<rparr>) \<and>
   iterations 2 \<lparr>year = 2026, month = 11, day = 3\<rparr>
       \<lparr>days = 2, starting_balance = (1000 :: int),
          current_day = \<lparr>year = 2026, month = 11, day = 3\<rparr>,
          end_day = \<lparr>year = 2026, month = 11, day = 5\<rparr>,
          recurring_transactions =
            [\<lparr>name = Some ''Rent'', sign = CHR ''-'', transaction_type = ''expense'',
              amount = - 50, frequency = \<lparr>rd_years = 0, rd_months = 0, rd_days = 7\<rparr>,
              next_date = \<lparr>year = 2026, month = 11, day = 5\<rparr>\<rparr>],
          transaction_log =
            [\<lparr>e_date = \<lparr>year = 2026, month = 11, day = 3\<rparr>,
              e_name = Some ''Opening Balance'', e_amount = 1000, e_balance = 1000\<rparr>],
          current_balance = 1000\<rparr>
     = Some (Inr \<lparr>days = 2, starting_balance = 1000,
          current_day = \<lparr>year = 2026, month = 11, day = 5\<rparr>,
          end_day = \<lparr>year = 2026, month = 11, day = 5\<rparr>,
          recurring_transactions =
            [\<lparr>name = Some ''Rent'', sign = CHR ''-'', transaction_type = ''expense'',
              amount = - 50, frequency = \<lparr>rd_years = 0, rd_months = 0, rd_days = 7\<rparr>,
              next_date = \<lparr>year = 2026, month = 11, day = 5\<rparr>\<rparr>],
          transaction_log =
            [\<lparr>e_date = \<lparr>year = 2026, month = 11, day = 3\<rparr>,
              e_name = Some ''Opening Balance'', e_amount = 1000, e_balance = 1000\<rparr>],
          current_balance = 1000\<rparr>) \<and>
   loop_body \<lparr>year = 2026, month = 11, day = 3\<rparr>
       \<lparr>days = 2, starting_balance = (1000 :: int),
          current_day = \<lparr>year = 2026, month = 11, day = 5\<rparr>,
          end_day = \<lparr>year = 2026, month = 11, day = 5\<rparr>,
          recurring_transactions =
            [\<lparr>name = Some ''Rent'', sign = CHR ''-'', transaction_type = ''expense'',
              amount = - 50, frequency = \<lparr>rd_years = 0, rd_months = 0, rd_days = 7\<rparr>,
              next_date = \<lparr>year = 2026, month = 11, day = 5\<rparr>\<rparr>],
          transaction_log =
            [\<lparr>e_date = \<lparr>year = 2026, month = 11, day = 3\<rparr>,
              e_name = Some ''Opening Balance'', e_amount = 1000, e_balance = 1000\<rparr>],
          current_balance = 1000\<rparr>
     = Some (Inr rent_ledger) \<and>
   days_later 2 \<lparr>year = 2026, month = 11, day = 3\<rparr> = Inr \<lparr>year = 2026, month = 11, day = 5\<rparr> \<and>
   date_le \<lparr>year = 2026, month = 11, day = 5\<rparr> \<lparr>year = 2026, month = 11, day = 5\<rparr> \<and>
   transaction_log rent_ledger
     = [\<lparr>e_date = \<lparr>year = 2026, month = 11, day = 3\<rparr>,
         e_name = Some ''Opening Balance'', e_amount = 1000, e_balance = 1000\<rparr>,
        \<lparr>e_date = \<lparr>year = 2026, month = 11, day = 5\<rparr>,
         e_name = Some ''Rent'', e_amount = - 50, e_balance = 950\<rparr>] \<and>
   current_balance rent_ledger = 950 \<and>
   add_relativedelta \<lparr>year = 2026, month = 11, day = 5\<rparr>
       \<lparr>rd_years = 0, rd_months = 0, rd_days = 7\<rparr>
     = Inr \<lparr>year = 2026, month = 11, day = 12\<rparr> \<and>
   next_date (recurring_transactions rent_ledger ! 0) = \<lparr>year = 2026, month = 11, day = 12\<rparr> \<and>
   (\<exists>e \<in> set (drop 1 (transaction_log rent_ledger)).
      e_date e = \<lparr>year = 2026, month = 11, day = 5\<rparr> \<and> e_name e = Some ''Rent'' \<and>
      e_amount e = - 50)"
  (is "?v \<and> Ledger_init _ ?T _ _ _ = Some (Inr ?L0) \<and> iterations _ _ _ = Some (Inr ?L2) \<and>
       loop_body _ _ = _ \<and> ?d \<and> ?le \<and> ?log \<and> ?bal \<and> ?add \<and> ?next \<and> ?posted")
proof -
  have v: ?v by (simp add: valid_date_def days_in_month_def MINYEAR_def MAXYEAR_def)
  have init: "Ledger_init whole_units ?T rent_csv 2 1000 = Some (Inr ?L0)" by code_simp
  have it0: "iterations 0 ?T ?L0 = Some (Inr ?L0)" by simp
  have it2: "iterations 2 ?T ?L0 = Some (Inr ?L2)" by code_simp
  have body: "loop_body ?T ?L2 = Some (Inr rent_ledger)" by code_simp
  have log: ?log and bal: ?bal and nxt: ?next by (simp_all add: rent_ledger_def)
  have add: ?add by code_simp
  from no_skip_invariant [OF v init it2] have "?d \<and> ?le" by simp
  moreover
  have "(0 :: nat) \<le> 2 \<and> iterations 2 ?T ?L0 = Some (Inr ?L2) \<and>
      0 < length (recurring_transactions ?L0) \<and>
      current_day ?L2 = next_date (recurring_transactions ?L0 ! 0)"
    using it2 by simp
  with no_skip_invariant [OF v init it0] body
  have "\<exists>e \<in> set (drop (length (transaction_log ?L2)) (transaction_log rent_ledger)).
      e_date e = next_date (recurring_transactions ?L0 ! 0) \<and>
      e_name e = name (recurring_transactions ?L0 ! 0) \<and>
      e_amount e = amount (recurring_transactions ?L0 ! 0)"
    by blast
  then have ?posted by simp
  ultimately show ?thesis using v init it2 body log bal add nxt by blast
qed

subsection \<open>The ledger\<close>

lemma main_run_Inr:
  assumes "main_run F today isfile path csv n sb = Some (Inr L')"
  shows "isfile \<and> 0 < n \<and>
         (\<exists>L0. Ledger_init F today csv n sb = Some (Inr L0) \<and> run_loop today L0 = Some (Inr L'))"
  using assms by (auto simp: main_run_def split: if_splits option.splits sum.splits)

lemma record_each_invariant:
  assumes "\<And>L i L1. I L \<Longrightarrow> record_transaction today L i = Some (Inr L1) \<Longrightarrow> I L1"
  shows "I L \<Longrightarrow> record_each today L js = Some (Inr L') \<Longrightarrow> I L'"
proof (induction js arbitrary: L)
  case Nil
  then show ?case by simp
next
  case (Cons i js)
  from Cons.prems(2) obtain L1 where r: "record_transaction today L i = Some (Inr L1)"
    and rest: "record_each today L1 js = Some (Inr L')"
    by (auto split: option.splits sum.splits)
  from Cons.IH [OF assms [OF Cons.prems(1) r] rest] show ?case .
qed

lemma step_consistent_append:
  assumes "step_consistent L"
    and log: "transaction_log L' = transaction_log L @ [e]"
    and e: "e_balance e = current_balance L + e_amount e"
    and bal: "current_balance L' = e_balance e"
    and sb: "starting_balance L' = starting_balance L"
  shows "step_consistent L'"
proof -
  let ?log = "transaction_log L"
  from assms(1) have ne: "?log \<noteq> []"
    and h: "e_amount (hd ?log) = starting_balance L" "e_balance (hd ?log) = starting_balance L"
    and ch: "\<forall>k \<in> {1 ..< length ?log}.
         e_balance (?log ! k) = e_balance (?log ! (k - 1)) + e_amount (?log ! k)"
    and cb: "current_balance L = e_balance (last ?log)"
    unfolding step_consistent_def by blast+
  have new: "(?log @ [e]) ! length ?log = e" by simp
  have prev: "(?log @ [e]) ! (length ?log - 1) = last ?log"
    using ne by (simp add: nth_append last_conv_nth)
  have chain: "\<forall>k \<in> {1 ..< length (?log @ [e])}.
      e_balance ((?log @ [e]) ! k)
        = e_balance ((?log @ [e]) ! (k - 1)) + e_amount ((?log @ [e]) ! k)"
  proof
    fix k assume k: "k \<in> {1 ..< length (?log @ [e])}"
    show "e_balance ((?log @ [e]) ! k)
        = e_balance ((?log @ [e]) ! (k - 1)) + e_amount ((?log @ [e]) ! k)"
    proof (cases "k < length ?log")
      case True
      with k have "k \<in> {1 ..< length ?log}" by simp
      with ch have "e_balance (?log ! k) = e_balance (?log ! (k - 1)) + e_amount (?log ! k)"
        by blast
      moreover from True have "(?log @ [e]) ! k = ?log ! k" "(?log @ [e]) ! (k - 1) = ?log ! (k - 1)"
        by (simp_all add: nth_append)
      ultimately show ?thesis by simp
    next
      case False
      with k have kl: "k = length ?log" by simp
      have "e_balance e = e_balance (last ?log) + e_amount e"
        using e unfolding cb .
      then show ?thesis unfolding kl new prev .
    qed
  qed
  have first: "hd (?log @ [e]) = hd ?log" using ne by simp
  have lst: "last (?log @ [e]) = e" by simp
  show ?thesis
    unfolding step_consistent_def log first lst sb bal
    using ne h chain by simp
qed

lemma record_transaction_consistent:
  assumes "step_consistent L" "record_transaction today L i = Some (Inr L')"
  shows "step_consistent L'"
proof -
  let ?t = "recurring_transactions L ! i"
  let ?e = "\<lparr>e_date = current_day L, e_name = name ?t, e_amount = amount ?t,
             e_balance = current_balance L + amount ?t\<rparr>"
  from record_transaction_Inr [OF assms(2)] obtain t' where
    L': "L' = L\<lparr>current_balance := current_balance L + amount ?t,
           transaction_log := transaction_log L @ [?e],
           recurring_transactions := (recurring_transactions L)[i := t']\<rparr>"
    by blast
  show ?thesis
  proof (rule step_consistent_append [OF assms(1), where e = ?e])
    show "transaction_log L' = transaction_log L @ [?e]" by (simp add: L')
    show "e_balance ?e = current_balance L + e_amount ?e" by simp
    show "current_balance L' = e_balance ?e" by (simp add: L')
    show "starting_balance L' = starting_balance L" by (simp add: L')
  qed
qed

lemma loop_body_consistent:
  assumes "step_consistent L" "loop_body today L = Some (Inr L')"
  shows "step_consistent L'"
proof -
  from loop_body_Inr [OF assms(2)] obtain L1 where
    r: "record_each today L (get_transactions_for_day L) = Some (Inr L1)" and
    a: "date_advance L1 = Inr L'" by blast
  have "step_consistent L1"
    by (rule record_each_invariant [where I = step_consistent, OF _ assms(1) r])
      (rule record_transaction_consistent)
  moreover from date_advance_Inr [OF a] obtain d where "L' = L1\<lparr>current_day := d\<rparr>" by blast
  ultimately show ?thesis by (simp add: step_consistent_def)
qed

lemma opening_consistent:
  assumes "transaction_log L = []" "current_balance L = starting_balance L"
  shows "step_consistent (record_starting_balance_to_ledger L)"
  using assms by (simp add: step_consistent_def record_starting_balance_to_ledger_def)

lemma Ledger_init_consistent:
  assumes "Ledger_init F today csv n sb = Some (Inr L0)"
  shows "step_consistent L0"
proof -
  from Ledger_init_Inr [OF assms] obtain ed ts where
    "L0 = \<lparr>days = n, starting_balance = sb, current_day = today, end_day = ed,
          recurring_transactions = ts,
          transaction_log = [\<lparr>e_date = today, e_name = Some ''Opening Balance'',
                              e_amount = sb, e_balance = sb\<rparr>],
          current_balance = sb\<rparr>"
    by blast
  then show ?thesis by (simp add: step_consistent_def)
qed

lemma main_run_iterations:
  assumes "main_run F today isfile path csv n sb = Some (Inr L')"
  shows "\<exists>L0 k. Ledger_init F today csv n sb = Some (Inr L0) \<and>
               iterations k today L0 = Some (Inr L')"
proof -
  from main_run_Inr [OF assms] obtain L0 where
    i: "Ledger_init F today csv n sb = Some (Inr L0)" and r: "run_loop today L0 = Some (Inr L')"
    by blast
  from run_loop_Inr_iterations [OF r] i show ?thesis by blast
qed

lemma main_run_consistent:
  assumes "main_run F today isfile path csv n sb = Some (Inr L')"
  shows "step_consistent L'"
proof -
  from main_run_iterations [OF assms] obtain L0 k where
    i: "Ledger_init F today csv n sb = Some (Inr L0)" and
    it: "iterations k today L0 = Some (Inr L')" by blast
  show ?thesis
    by (rule iterations_invariant [where I = step_consistent, OF _ Ledger_init_consistent [OF i] it])
      (rule loop_body_consistent)
qed

lemma iterations_starting_balance:
  "iterations k today L = Some (Inr L') \<Longrightarrow> starting_balance L' = starting_balance L"
  by (rule iterations_invariant [where I = "\<lambda>M. starting_balance M = starting_balance L"])
    (simp_all add: loop_body_log(3))

lemma iterations_log_prefix:
  "iterations k today L = Some (Inr L') \<Longrightarrow> \<exists>rest. transaction_log L' = transaction_log L @ rest"
  by (rule iterations_invariant
      [where I = "\<lambda>M. \<exists>rest. transaction_log M = transaction_log L @ rest"])
    (auto simp: loop_body_log(1))

lemma Ledger_init_log:
  assumes "Ledger_init F today csv n sb = Some (Inr L0)"
  shows "transaction_log L0 = [opening_entry today sb]" "starting_balance L0 = sb"
    "map name (recurring_transactions L0) = map row_name (rows csv)"
proof -
  from Ledger_init_Inr [OF assms] obtain ed ts where
    c: "construct_rows F today (rows csv) = Some (Inr ts)" and
    L0: "L0 = \<lparr>days = n, starting_balance = sb, current_day = today, end_day = ed,
          recurring_transactions = ts,
          transaction_log = [\<lparr>e_date = today, e_name = Some ''Opening Balance'',
                              e_amount = sb, e_balance = sb\<rparr>],
          current_balance = sb\<rparr>"
    by blast
  show "transaction_log L0 = [opening_entry today sb]" by (simp add: L0 opening_entry_def)
  show "starting_balance L0 = sb" by (simp add: L0)
  have "map name ts = map row_name (rows csv)" using c
  proof (induction "rows csv" arbitrary: ts csv)
    case Nil
    then show ?case by simp
  next
    case (Cons r rs)
    from Cons.hyps(2) [symmetric] Cons.prems obtain t ts' where
      t: "RecurringTransaction_init F today r = Some (Inr t)" and
      r: "construct_rows F today rs = Some (Inr ts')" and ts: "ts = t # ts'"
      by (auto split: option.splits sum.splits)
    from t have "name t = row_name r"
      by (auto simp: RecurringTransaction_init_def split: sum.splits option.splits prod.splits)
    moreover from Cons.hyps(1) [of "\<lparr>fieldnames = None, rows = rs\<rparr>" ts'] r
    have "map name ts' = map row_name rs" by simp
    ultimately show ?case using Cons.hyps(2) [symmetric] by (simp add: ts)
  qed
  then show "map name (recurring_transactions L0) = map row_name (rows csv)" by (simp add: L0)
qed

lemma balance_by_index:
  assumes "step_consistent L"
  shows "k < length (transaction_log L) \<Longrightarrow>
         e_balance (transaction_log L ! k)
           = foldl (+) (starting_balance L) (map e_amount (take k (tl (transaction_log L))))"
proof (induction k)
  case 0
  from assms have "transaction_log L \<noteq> []"
    "e_balance (hd (transaction_log L)) = starting_balance L"
    unfolding step_consistent_def by blast+
  then show ?case by (simp add: hd_conv_nth)
next
  case (Suc k)
  let ?log = "transaction_log L"
  from Suc.prems have k: "k < length ?log" and kt: "k < length (tl ?log)" by simp_all
  from assms have "\<forall>j \<in> {1 ..< length ?log}.
      e_balance (?log ! j) = e_balance (?log ! (j - 1)) + e_amount (?log ! j)"
    unfolding step_consistent_def by blast
  moreover from Suc.prems have "Suc k \<in> {1 ..< length ?log}" by simp
  ultimately have "e_balance (?log ! Suc k) = e_balance (?log ! k) + e_amount (?log ! Suc k)"
    by fastforce
  moreover have "take (Suc k) (tl ?log) = take k (tl ?log) @ [?log ! Suc k]"
    using kt by (simp add: take_Suc_conv_app_nth nth_tl)
  ultimately show ?case using Suc.IH [OF k] by simp
qed

lemma loop_body_names:
  assumes "loop_body today L = Some (Inr L')"
  shows "map name (recurring_transactions L') = map name (recurring_transactions L)"
    "map amount (recurring_transactions L') = map amount (recurring_transactions L)"
proof -
  have len: "length (recurring_transactions L') = length (recurring_transactions L)"
    by (rule loop_body_log(5) [OF assms])
  have each: "name (recurring_transactions L' ! j) = name (recurring_transactions L ! j) \<and>
      amount (recurring_transactions L' ! j) = amount (recurring_transactions L ! j)"
    if j: "j < length (recurring_transactions L)" for j
  proof (cases "is_due L (recurring_transactions L ! j)")
    case True
    from loop_body_transactions(1) [OF assms j True] show ?thesis by auto
  next
    case False
    from loop_body_transactions(2) [OF assms j False] show ?thesis by simp
  qed
  show "map name (recurring_transactions L') = map name (recurring_transactions L)"
    using len each by (simp add: list_eq_iff_nth_eq)
  show "map amount (recurring_transactions L') = map amount (recurring_transactions L)"
    using len each by (simp add: list_eq_iff_nth_eq)
qed

text \<open>
  Claim C5. The transactions of a ledger stand in the order of the rows of the input, and
  an iteration of the loop keeps that order. The iteration appends to the log, after what
  it held, one entry for each transaction due on the current day, in the order of the
  collection, each dated the current day and carrying as balance the balance before it
  plus its amount; the running balance after the day is the balance before it with the
  amounts of the due transactions added in that order.
\<close>

theorem same_day_postings_in_input_order:
  "(Ledger_init F today csv n sb = Some (Inr L0) \<longrightarrow>
      map name (recurring_transactions L0) = map row_name (rows csv)) \<and>
   (loop_body today L = Some (Inr L') \<longrightarrow>
      transaction_log L' = transaction_log L @
        post_entries (current_day L) (current_balance L)
          (filter (is_due L) (recurring_transactions L)) \<and>
      current_balance L' = foldl (+) (current_balance L)
        (map amount (filter (is_due L) (recurring_transactions L))) \<and>
      map name (recurring_transactions L') = map name (recurring_transactions L) \<and>
      map amount (recurring_transactions L') = map amount (recurring_transactions L))"
  using Ledger_init_log(3) loop_body_log(1,2) loop_body_names by blast

text \<open>
  Claim C8. The ledger that \<open>Ledger.__init__\<close> hands to the simulation loop holds exactly
  one entry, the opening entry: dated today, named Opening Balance, with the starting
  balance as amount and as balance. It stays the first entry after any number of
  iterations, and in the ledger a run of \<open>main\<close> ends with.
\<close>

theorem opening_balance_first:
  "(Ledger_init F today csv n sb = Some (Inr L0) \<longrightarrow>
      transaction_log L0 = [opening_entry today sb] \<and>
      (\<forall>k Lk. iterations k today L0 = Some (Inr Lk) \<longrightarrow>
         (\<exists>rest. transaction_log Lk = opening_entry today sb # rest))) \<and>
   (main_run F today isfile path csv n sb = Some (Inr L') \<longrightarrow>
      (\<exists>rest. transaction_log L' = opening_entry today sb # rest))"
proof -
  have a: "\<exists>rest. transaction_log Lk = opening_entry today sb # rest"
    if "Ledger_init F today csv n sb = Some (Inr L0)" "iterations k today L0 = Some (Inr Lk)"
    for L0 :: "'a Ledger" and k Lk
    using iterations_log_prefix [OF that(2)] Ledger_init_log(1) [OF that(1)] by simp
  have b: "\<exists>rest. transaction_log L' = opening_entry today sb # rest"
    if "main_run F today isfile path csv n sb = Some (Inr L')"
    using main_run_iterations [OF that] a by blast
  from a b Ledger_init_log(1) show ?thesis by blast
qed

text \<open>
  Claim C9. The ledger \<open>Ledger.__init__\<close> builds is step consistent: its first entry has the
  starting balance as amount and as balance, every later entry's balance is the balance of
  the entry before plus its own amount, and the running balance is the last entry's.
  Appending the opening entry to an empty log establishes this, \<open>record_transaction\<close> and a
  whole iteration of the loop preserve it, and so it holds of the ledger a run of \<open>main\<close>
  ends with.
\<close>

theorem ledger_step_consistency:
  "(Ledger_init F today csv n sb = Some (Inr L0) \<longrightarrow> step_consistent L0 \<and> starting_balance L0 = sb) \<and>
   (transaction_log K = [] \<and> current_balance K = starting_balance K \<longrightarrow>
      step_consistent (record_starting_balance_to_ledger K)) \<and>
   (step_consistent L \<and> record_transaction today L i = Some (Inr L1) \<longrightarrow> step_consistent L1) \<and>
   (step_consistent L \<and> loop_body today L = Some (Inr L2) \<longrightarrow> step_consistent L2) \<and>
   (main_run F today isfile path csv n sb = Some (Inr L') \<longrightarrow>
      step_consistent L' \<and> starting_balance L' = sb)"
proof -
  have "starting_balance L' = sb" if m: "main_run F today isfile path csv n sb = Some (Inr L')"
  proof -
    from main_run_iterations [OF m] obtain M k where
      i: "Ledger_init F today csv n sb = Some (Inr M)" and
      it: "iterations k today M = Some (Inr L')" by blast
    from iterations_starting_balance [OF it] Ledger_init_log(2) [OF i] show ?thesis by simp
  qed
  then show ?thesis
  proof (intro conjI impI)
    assume "Ledger_init F today csv n sb = Some (Inr L0)"
    then show "step_consistent L0" "starting_balance L0 = sb"
      by (rule Ledger_init_consistent, rule Ledger_init_log(2))
  next
    assume "transaction_log K = [] \<and> current_balance K = starting_balance K"
    then show "step_consistent (record_starting_balance_to_ledger K)"
      by (simp add: opening_consistent)
  next
    assume "step_consistent L \<and> record_transaction today L i = Some (Inr L1)"
    then show "step_consistent L1" by (blast intro: record_transaction_consistent)
  next
    assume "step_consistent L \<and> loop_body today L = Some (Inr L2)"
    then show "step_consistent L2" by (blast intro: loop_body_consistent)
  next
    assume "main_run F today isfile path csv n sb = Some (Inr L')"
    then show "step_consistent L'" by (rule main_run_consistent)
  qed
qed

text \<open>
  Claim C1, as amended. In the ledger a run of \<open>main\<close> ends with, the balance of entry \<open>k\<close>
  (counted from 1) is the starting balance plus the amounts of the entries 2 to \<open>k\<close>, added
  in the order of the ledger. The amount of entry 1, the opening entry, is the starting
  balance itself, so that this is also the amounts of the entries 1 to \<open>k\<close> added up.
\<close>

theorem balance_is_start_plus_later_amounts:
  assumes "main_run F today isfile path csv n sb = Some (Inr L)"
    "1 \<le> k" "k \<le> length (transaction_log L)"
  shows "e_balance (transaction_log L ! (k - 1))
           = start_plus_later_amounts sb (transaction_log L) k \<and>
         e_amount (transaction_log L ! 0) = sb \<and>
         e_balance (transaction_log L ! (k - 1))
           = foldl (+) (e_amount (transaction_log L ! 0))
               (map e_amount (take (k - 1) (tl (transaction_log L))))"
proof -
  note c = main_run_consistent [OF assms(1)]
  from main_run_iterations [OF assms(1)] obtain M j where
    i: "Ledger_init F today csv n sb = Some (Inr M)" and
    it: "iterations j today M = Some (Inr L)" by blast
  from iterations_starting_balance [OF it] Ledger_init_log(2) [OF i]
  have sb: "starting_balance L = sb" by simp
  from assms(2,3) have "k - 1 < length (transaction_log L)" by simp
  from balance_by_index [OF c this]
  have b: "e_balance (transaction_log L ! (k - 1))
           = foldl (+) sb (map e_amount (take (k - 1) (tl (transaction_log L))))"
    by (simp add: sb)
  from c have "transaction_log L \<noteq> []" "e_amount (hd (transaction_log L)) = starting_balance L"
    unfolding step_consistent_def by blast+
  then have a: "e_amount (transaction_log L ! 0) = sb" by (simp add: hd_conv_nth sb)
  from a b show ?thesis by (simp add: start_plus_later_amounts_def)
qed

text \<open>
  On 3 November 2026 the two transactions A and B are both due: the first iteration
  posts A, then B, and the balance goes from 1000 to 950 to 1020.
\<close>

theorem same_day_postings_in_input_order_witness:
  "Ledger_init whole_units \<lparr>year = 2026, month = 11, day = 3\<rparr> two_due_csv 5 1000
     = Some (Inr \<lparr>days = 5, starting_balance = 1000,
          current_day = \<lparr>year = 2026, month = 11, day = 3\<rparr>,
          end_day = \<lparr>year = 2026, month = 11, day = 8\<rparr>,
          recurring_transactions =
            [\<lparr>name = Some ''A'', sign = CHR ''-'', transaction_type = ''expense'',
              amount = - 50, frequency = \<lparr>rd_years = 0, rd_months = 0, rd_days = 7\<rparr>,
              next_date = \<lparr>year = 2026, month = 11, day = 3\<rparr>\<rparr>,
             \<lparr>name = Some ''B'', sign = CHR ''+'', transaction_type = ''income'',
              amount = 70, frequency = \<lparr>rd_years = 0, rd_months = 1, rd_days = 0\<rparr>,
              next_date = \<lparr>year = 2026, month = 11, day = 3\<rparr>\<rparr>],
          transaction_log =
            [\<lparr>e_date = \<lparr>year = 2026, month = 11, day = 3\<rparr>,
              e_name = Some ''Opening Balance'', e_amount = 1000, e_balance = 1000\<rparr>],
          current_balance = 1000\<rparr>) \<and>
   loop_body \<lparr>year = 2026, month = 11, day = 3\<rparr>
       \<lparr>days = 5, starting_balance = (1000 :: int),
          current_day = \<lparr>year = 2026, month = 11, day = 3\<rparr>,
          end_day = \<lparr>year = 2026, month = 11, day = 8\<rparr>,
          recurring_transactions =
            [\<lparr>name = Some ''A'', sign = CHR ''-'', transaction_type = ''expense'',
              amount = - 50, frequency = \<lparr>rd_years = 0, rd_months = 0, rd_days = 7\<rparr>,
              next_date = \<lparr>year = 2026, month = 11, day = 3\<rparr>\<rparr>,
             \<lparr>name = Some ''B'', sign = CHR ''+'', transaction_type = ''income'',
              amount = 70, frequency = \<lparr>rd_years = 0, rd_months = 1, rd_days = 0\<rparr>,
              next_date = \<lparr>year = 2026, month = 11, day = 3\<rparr>\<rparr>],
          transaction_log =
            [\<lparr>e_date = \<lparr>year = 2026, month = 11, day = 3\<rparr>,
              e_name = Some ''Opening Balance'', e_amount = 1000, e_balance = 1000\<rparr>],
          current_balance = 1000\<rparr>
     = Some (Inr \<lparr>days = 5, starting_balance = 1000,
          current_day = \<lparr>year = 2026, month = 11, day = 4\<rparr>,
          end_day = \<lparr>year = 2026, month = 11, day = 8\<rparr>,
          recurring_transactions =
            [\<lparr>name = Some ''A'', sign = CHR ''-'', transaction_type = ''expense'',
              amount = - 50, frequency = \<lparr>rd_years = 0, rd_months = 0, rd_days = 7\<rparr>,
              next_date = \<lparr>year = 2026, month = 11, day = 10\<rparr>\<rparr>,
             \<lparr>name = Some ''B'', sign = CHR ''+'', transaction_type = ''income'',
              amount = 70, frequency = \<lparr>rd_years = 0, rd_months = 1, rd_days = 0\<rparr>,
              next_date = \<lparr>year = 2026, month = 12, day = 3\<rparr>\<rparr>],
          transaction_log =
            [\<lparr>e_date = \<lparr>year = 2026, month = 11, day = 3\<rparr>,
              e_name = Some ''Opening Balance'', e_amount = 1000, e_balance = 1000\<rparr>,
             \<lparr>e_date = \<lparr>year = 2026, month = 11, day = 3\<rparr>,
              e_name = Some ''A'', e_amount = - 50, e_balance = 950\<rparr>,
             \<lparr>e_date = \<lparr>year = 2026, month = 11, day = 3\<rparr>,
              e_name = Some ''B'', e_amount = 70, e_balance = 1020\<rparr>],
          current_balance = 1020\<rparr>) \<and>
   map row_name (rows two_due_csv) = [Some ''A'', Some ''B''] \<and>
   post_entries \<lparr>year = 2026, month = 11, day = 3\<rparr> (1000 :: int)
     [\<lparr>name = Some ''A'', sign = CHR ''-'', transaction_type = ''expense'',
              amount = - 50, frequency = \<lparr>rd_years = 0, rd_months = 0, rd_days = 7\<rparr>,
              next_date = \<lparr>year = 2026, month = 11, day = 3\<rparr>\<rparr>,
      \<lparr>name = Some ''B'', sign = CHR ''+'', transaction_type = ''income'',
              amount = 70, frequency = \<lparr>rd_years = 0, rd_months = 1, rd_days = 0\<rparr>,
              next_date = \<lparr>year = 2026, month = 11, day = 3\<rparr>\<rparr>]
     = [\<lparr>e_date = \<lparr>year = 2026, month = 11, day = 3\<rparr>,
              e_name = Some ''A'', e_amount = - 50, e_balance = 950\<rparr>,
        \<lparr>e_date = \<lparr>year = 2026, month = 11, day = 3\<rparr>,
              e_name = Some ''B'', e_amount = 70, e_balance = 1020\<rparr>]"
  (is "Ledger_init _ ?T _ _ _ = Some (Inr ?L0) \<and> loop_body _ _ = Some (Inr ?L1) \<and> ?names \<and> ?post")
proof -
  have init: "Ledger_init whole_units ?T two_due_csv 5 1000 = Some (Inr ?L0)" by code_simp
  have body: "loop_body ?T ?L0 = Some (Inr ?L1)" by code_simp
  have names: ?names by (simp add: two_due_csv_def)
  have post: ?post by simp
  from same_day_postings_in_input_order [of whole_units ?T two_due_csv 5 1000 ?L0 ?L0 ?L1]
    init body
  have "map name (recurring_transactions ?L0) = map row_name (rows two_due_csv)" by blast
  with init body names post show ?thesis by blast
qed

subsection \<open>The example run\<close>

lemma rent_run:
  "main_run whole_units \<lparr>year = 2026, month = 11, day = 3\<rparr> True ''transactions.csv''
     rent_csv 2 1000 = Some (Inr rent_ledger)"
  by code_simp

text \<open>The example run: its ledger starts with the opening entry of 1000.\<close>

theorem opening_balance_first_witness:
  "main_run whole_units \<lparr>year = 2026, month = 11, day = 3\<rparr> True ''transactions.csv''
     rent_csv 2 1000 = Some (Inr rent_ledger) \<and>
   hd (transaction_log rent_ledger)
     = \<lparr>e_date = \<lparr>year = 2026, month = 11, day = 3\<rparr>, e_name = Some ''Opening Balance'',
        e_amount = 1000, e_balance = 1000\<rparr> \<and>
   opening_entry \<lparr>year = 2026, month = 11, day = 3\<rparr> (1000 :: int)
     = \<lparr>e_date = \<lparr>year = 2026, month = 11, day = 3\<rparr>, e_name = Some ''Opening Balance'',
        e_amount = 1000, e_balance = 1000\<rparr>"
proof -
  from opening_balance_first
    [of whole_units "\<lparr>year = 2026, month = 11, day = 3\<rparr>" rent_csv 2 1000 _ True
      "''transactions.csv''" rent_ledger]
    rent_run
  obtain rest where "transaction_log rent_ledger
      = opening_entry \<lparr>year = 2026, month = 11, day = 3\<rparr> 1000 # rest"
    by blast
  then have "hd (transaction_log rent_ledger)
      = opening_entry \<lparr>year = 2026, month = 11, day = 3\<rparr> 1000" by simp
  with rent_run show ?thesis by (simp add: opening_entry_def)
qed

text \<open>The example run: its ledger is step consistent, 950 being 1000 plus -50.\<close>

theorem ledger_step_consistency_witness:
  "main_run whole_units \<lparr>year = 2026, month = 11, day = 3\<rparr> True ''transactions.csv''
     rent_csv 2 1000 = Some (Inr rent_ledger) \<and>
   step_consistent rent_ledger \<and> starting_balance rent_ledger = 1000 \<and>
   e_balance (transaction_log rent_ledger ! 1)
     = e_balance (transaction_log rent_ledger ! 0) + e_amount (transaction_log rent_ledger ! 1)"
proof -
  from ledger_step_consistency
    [where F = whole_units and today = "\<lparr>year = 2026, month = 11, day = 3\<rparr>"
      and isfile = True and path = "''transactions.csv''" and csv = rent_csv and n = 2
      and sb = 1000 and L' = rent_ledger]
    rent_run
  have "step_consistent rent_ledger \<and> starting_balance rent_ledger = 1000" by blast
  moreover have "e_balance (transaction_log rent_ledger ! 1)
     = e_balance (transaction_log rent_ledger ! 0) + e_amount (transaction_log rent_ledger ! 1)"
    by (simp add: rent_ledger_def)
  ultimately show ?thesis using rent_run by blast
qed

text \<open>
  Claim C1 as the specification states it fails on the example run: the first entry's
  balance is 1000, not the starting balance 1000 plus the opening amount 1000, and the
  second entry's balance is 950, not 1000 plus 1000 plus -50.
\<close>

theorem start_plus_amounts_counterexample:
  "main_run whole_units \<lparr>year = 2026, month = 11, day = 3\<rparr> True ''transactions.csv''
     rent_csv 2 1000 = Some (Inr rent_ledger) \<and>
   e_balance (transaction_log rent_ledger ! 0) = 1000 \<and>
   start_plus_amounts 1000 (transaction_log rent_ledger) 1 = 2000 \<and>
   e_balance (transaction_log rent_ledger ! 0)
     \<noteq> start_plus_amounts 1000 (transaction_log rent_ledger) 1 \<and>
   e_balance (transaction_log rent_ledger ! 1) = 950 \<and>
   start_plus_amounts 1000 (transaction_log rent_ledger) 2 = 1950 \<and>
   e_balance (transaction_log rent_ledger ! 1)
     \<noteq> start_plus_amounts 1000 (transaction_log rent_ledger) 2"
proof -
  have "take 2 (transaction_log rent_ledger) = transaction_log rent_ledger"
    by (simp add: rent_ledger_def)
  then show ?thesis
    using rent_run by (simp add: start_plus_amounts_def) (simp add: rent_ledger_def)
qed

text \<open>The example run: the second entry's balance, 950, is 1000 plus the amount -50.\<close>

theorem balance_is_start_plus_later_amounts_witness:
  "main_run whole_units \<lparr>year = 2026, month = 11, day = 3\<rparr> True ''transactions.csv''
     rent_csv 2 1000 = Some (Inr rent_ledger) \<and>
   (1 :: nat) \<le> 2 \<and> 2 \<le> length (transaction_log rent_ledger) \<and>
   e_balance (transaction_log rent_ledger ! (2 - 1))
     = start_plus_later_amounts 1000 (transaction_log rent_ledger) 2 \<and>
   start_plus_later_amounts 1000 (transaction_log rent_ledger) 2 = 950"
proof -
  have k: "(1 :: nat) \<le> 2" by simp
  have l: "2 \<le> length (transaction_log rent_ledger)" by (simp add: rent_ledger_def)
  have v: "start_plus_later_amounts 1000 (transaction_log rent_ledger) 2 = 950"
    by (simp add: start_plus_later_amounts_def rent_ledger_def)
  from balance_is_start_plus_later_amounts [OF rent_run k l] rent_run k l v
  show ?thesis by blast
qed

subsection \<open>Input fields and export\<close>

text \<open>
  Claim C6. When the set of the header's fields is not exactly the required set, be a
  field missing or one too many, \<open>import_transactions\<close> ends with the fatal error
  \<open>Error: Input file does not contain the correct fields.\<close> and exit status 1, whatever
  the rows are: no row is read and no transaction is constructed. \<open>Ledger.__init__\<close> and
  \<open>main\<close> then end with a failure too, and with this one when the end day could be
  computed (and, for \<open>main\<close>, the input is a file and the horizon is positive).
  A file with no header line has no field set at all: \<open>set(None)\<close> raises TypeError,
  which nothing catches.
\<close>

theorem wrong_fields_abort_before_construction:
  assumes "set fs \<noteq> REQUIRED_INPUT_FIELDS"
  shows "import_transactions F today \<lparr>fieldnames = Some fs, rows = rs\<rparr>
           = Some (Inl (Exit ''Error: Input file does not contain the correct fields.'' 1)) \<and>
         import_transactions F today \<lparr>fieldnames = Some fs, rows = rs\<rparr>
           = import_transactions F today \<lparr>fieldnames = Some fs, rows = []\<rparr> \<and>
         (\<exists>e. Ledger_init F today \<lparr>fieldnames = Some fs, rows = rs\<rparr> n sb = Some (Inl e)) \<and>
         (\<forall>ed. add_relativedelta today (mk_relativedelta 0 0 0 n) = Inr ed \<longrightarrow>
            Ledger_init F today \<lparr>fieldnames = Some fs, rows = rs\<rparr> n sb
              = Some (Inl (Exit ''Error: Input file does not contain the correct fields.'' 1))) \<and>
         (\<exists>e. main_run F today isfile path \<lparr>fieldnames = Some fs, rows = rs\<rparr> n sb
                = Some (Inl e)) \<and>
         import_transactions F today \<lparr>fieldnames = None, rows = rs\<rparr>
           = Some (Inl (Uncaught TypeError))"
proof -
  have none: "import_transactions F today \<lparr>fieldnames = None, rows = rs\<rparr>
           = Some (Inl (Uncaught TypeError))"
    by (simp add: import_transactions_def validate_input_fields_def)
  have imp: "import_transactions F today \<lparr>fieldnames = Some fs, rows = rs'\<rparr>
      = Some (Inl (Exit ''Error: Input file does not contain the correct fields.'' 1))" for rs'
    using assms
    by (simp add: import_transactions_def validate_input_fields_def exit_application_def)
  have init: "\<exists>e. Ledger_init F today \<lparr>fieldnames = Some fs, rows = rs\<rparr> n sb = Some (Inl e)"
    by (cases "add_relativedelta today (mk_relativedelta 0 0 0 n)")
      (simp_all add: Ledger_init_def imp)
  have init': "\<forall>ed. add_relativedelta today (mk_relativedelta 0 0 0 n) = Inr ed \<longrightarrow>
            Ledger_init F today \<lparr>fieldnames = Some fs, rows = rs\<rparr> n sb
              = Some (Inl (Exit ''Error: Input file does not contain the correct fields.'' 1))"
    by (simp add: Ledger_init_def imp)
  from init obtain e where
    e: "Ledger_init F today \<lparr>fieldnames = Some fs, rows = rs\<rparr> n sb = Some (Inl e)" by blast
  have "\<exists>e. main_run F today isfile path \<lparr>fieldnames = Some fs, rows = rs\<rparr> n sb
                = Some (Inl e)"
    by (simp add: main_run_def e)
  with imp [of rs] imp [of "[]"] init init' none show ?thesis by simp
qed

text \<open>
  A header without \<open>transaction_type\<close>, and a header with the extra field \<open>note\<close>: both
  are refused, although the one row is not a valid transaction.
\<close>

theorem wrong_fields_abort_before_construction_witness:
  "set [''name'', ''frequency'', ''next_date'', ''amount''] \<noteq> REQUIRED_INPUT_FIELDS \<and>
   import_transactions whole_units \<lparr>year = 2026, month = 11, day = 3\<rparr>
     \<lparr>fieldnames = Some [''name'', ''frequency'', ''next_date'', ''amount''],
      rows = [\<lparr>row_name = Some ''Rent'', row_frequency = Some ''fortnightly'',
               row_next_date = Some ''soon'', row_amount = Some ''50'',
               row_transaction_type = None\<rparr>]\<rparr>
     = Some (Inl (Exit ''Error: Input file does not contain the correct fields.'' 1)) \<and>
   set (input_header @ [''note'']) \<noteq> REQUIRED_INPUT_FIELDS \<and>
   import_transactions whole_units \<lparr>year = 2026, month = 11, day = 3\<rparr>
     \<lparr>fieldnames = Some (input_header @ [''note'']),
      rows = [\<lparr>row_name = Some ''Rent'', row_frequency = Some ''fortnightly'',
               row_next_date = Some ''soon'', row_amount = Some ''50'',
               row_transaction_type = None\<rparr>]\<rparr>
     = Some (Inl (Exit ''Error: Input file does not contain the correct fields.'' 1)) \<and>
   set input_header = REQUIRED_INPUT_FIELDS"
proof -
  have a: "set [''name'', ''frequency'', ''next_date'', ''amount''] \<noteq> REQUIRED_INPUT_FIELDS"
  proof -
    have "''transaction_type'' \<notin> set [''name'', ''frequency'', ''next_date'', ''amount'']"
      by simp
    moreover have "''transaction_type'' \<in> REQUIRED_INPUT_FIELDS"
      by (simp add: REQUIRED_INPUT_FIELDS_def)
    ultimately show ?thesis by metis
  qed
  have b: "set (input_header @ [''note'']) \<noteq> REQUIRED_INPUT_FIELDS"
  proof -
    have "''note'' \<in> set (input_header @ [''note''])" by simp
    moreover have "''note'' \<notin> REQUIRED_INPUT_FIELDS"
      by (simp add: REQUIRED_INPUT_FIELDS_def)
    ultimately show ?thesis by metis
  qed
  have c: "set input_header = REQUIRED_INPUT_FIELDS"
    by (simp add: REQUIRED_INPUT_FIELDS_def input_header_def)
  from wrong_fields_abort_before_construction [OF a] wrong_fields_abort_before_construction [OF b]
    a b c
  show ?thesis by blast
qed

text \<open>
  Claim C2 as the specification states it fails: the export of an empty ledger ends
  without a diagnostic line on standard output.
\<close>

theorem export_empty_ledger_counterexample:
  "\<not> fails_with_diagnostic
     (export_ledger
        \<lparr>days = 2, starting_balance = (1000 :: int),
         current_day = \<lparr>year = 2026, month = 11, day = 6\<rparr>,
         end_day = \<lparr>year = 2026, month = 11, day = 5\<rparr>,
         recurring_transactions = [], transaction_log = [], current_balance = 1000\<rparr>
        Written)"
  by (simp add: fails_with_diagnostic_def export_ledger_def)

text \<open>
  Claim C2, as amended. The export of a ledger with no entry raises IndexError, before
  the destination is opened and whatever would have become of it; no handler catches the
  exception, so nothing is printed on standard output and the exit status is 1. The
  ledger a run of \<open>main\<close> ends with is never empty.
\<close>

theorem export_empty_ledger_raises:
  "(transaction_log L = [] \<longrightarrow>
      export_ledger L io = Inl (Uncaught IndexError) \<and>
      stdout_lines (Uncaught IndexError) = [] \<and> exit_status (Uncaught IndexError) = 1) \<and>
   (main_run F today isfile path csv n sb = Some (Inr M) \<longrightarrow>
      transaction_log M \<noteq> [] \<and>
      export_ledger M Written = Inr (to_dict_keys, transaction_log M))"
proof -
  have "transaction_log M \<noteq> [] \<and> export_ledger M Written = Inr (to_dict_keys, transaction_log M)"
    if "main_run F today isfile path csv n sb = Some (Inr M)"
  proof -
    from main_run_consistent [OF that] have "transaction_log M \<noteq> []"
      unfolding step_consistent_def by blast
    then show ?thesis by (cases "transaction_log M") (simp_all add: export_ledger_def)
  qed
  then show ?thesis by (simp add: export_ledger_def)
qed

text \<open>
  A ledger with no entry and a destination that cannot be created: the IndexError comes
  first. The ledger of the example run is exported with its two entries.
\<close>

theorem export_empty_ledger_raises_witness:
  "transaction_log
     \<lparr>days = 2, starting_balance = (1000 :: int),
      current_day = \<lparr>year = 2026, month = 11, day = 6\<rparr>,
      end_day = \<lparr>year = 2026, month = 11, day = 5\<rparr>,
      recurring_transactions = [], transaction_log = [], current_balance = 1000\<rparr> = [] \<and>
   export_ledger
     \<lparr>days = 2, starting_balance = (1000 :: int),
      current_day = \<lparr>year = 2026, month = 11, day = 6\<rparr>,
      end_day = \<lparr>year = 2026, month = 11, day = 5\<rparr>,
      recurring_transactions = [], transaction_log = [], current_balance = 1000\<rparr>
     NoSuchFile = Inl (Uncaught IndexError) \<and>
   main_run whole_units \<lparr>year = 2026, month = 11, day = 3\<rparr> True ''transactions.csv''
     rent_csv 2 1000 = Some (Inr rent_ledger) \<and>
   export_ledger rent_ledger Written = Inr (to_dict_keys, transaction_log rent_ledger)"
  (is "transaction_log ?L = [] \<and> _ \<and> _ \<and> _")
proof -
  have e: "transaction_log ?L = []" by simp
  from export_empty_ledger_raises
    [of ?L NoSuchFile whole_units "\<lparr>year = 2026, month = 11, day = 3\<rparr>" True
      "''transactions.csv''" rent_csv 2 1000 rent_ledger]
    e rent_run
  show ?thesis by blast
qed

end
